theory Spec2Isabelle
  imports Main "HOL-Library.Multiset"
begin

unbundle bit_operations_syntax

section \<open>The data model of lst.c\<close>

text \<open>
  User records are identified by their address (\<open>ptr\<close>). The only part of a record the
  LST reads or writes is its handle field, \<open>item_index(lst, data)\<close> in the source; the
  field \<open>hnd\<close> of the state maps every record to the current value of that field.
  \<open>lst_index_t\<close> is C's \<open>int\<close>, 32 bits wide. Its values are modelled by mathematical
  integers, and the doubling of the capacity in \<open>lst_expand\<close>, which leaves the range of
  \<open>int\<close> at the capacity \<open>2 ^ 30\<close>, has its wrap-around written out (\<open>c_int\<close>,
  \<open>c_size_t\<close> below). On a state satisfying the invariants a capacity that is an \<open>int\<close>
  is at most \<open>2 ^ 30\<close> and a logical index stays below twice the capacity, so the other
  computations on indices stay in the range. \<open>stack_index_t\<close> values are counted from 0
  upwards by every caller and are modelled by natural numbers; the size of the pivot stack
  is doubled in natural numbers, which differs from the source only for a stack of
  \<open>2 ^ 30\<close> entries.

  The arrays \<open>p\<close> and \<open>data\<close> are functions from indices; their allocated sizes are the
  fields \<open>capacity\<close> and \<open>size_s\<close>. The state also carries the environment of the C
  code: \<open>rnd\<close> is the sequence of results the following calls of \<open>rand()\<close> return, and
  \<open>mem_ok\<close> says whether the allocator has memory to give.
\<close>

type_synonym ptr = nat
type_synonym lst_index_t = int
type_synonym stack_index_t = nat

record pivot_stack_t =
  depth :: nat
  size_s :: nat
  data :: "nat \<Rightarrow> lst_index_t"

record lst_t =
  capacity :: lst_index_t
  idx :: lst_index_t
  num_elements :: lst_index_t
  offset :: nat
  p :: "lst_index_t \<Rightarrow> ptr"
  s :: pivot_stack_t
  cmp :: "ptr \<Rightarrow> ptr \<Rightarrow> int"
  hnd :: "ptr \<Rightarrow> lst_index_t"
  rnd :: "nat \<Rightarrow> nat"
  mem_ok :: bool

definition NULL :: ptr where
  "NULL = 0"

definition INITIAL_CAPACITY :: int where
  "INITIAL_CAPACITY = 2048"

definition INITIAL_STACK_CAPACITY :: nat where
  "INITIAL_STACK_CAPACITY = 32"

subsection \<open>The macros\<close>

definition item_index :: "lst_t \<Rightarrow> ptr \<Rightarrow> lst_index_t" where
  "item_index st d = hnd st d"

definition index_reduce :: "lst_t \<Rightarrow> lst_index_t \<Rightarrow> lst_index_t" where
  "index_reduce st i = i AND (capacity st - 1)"

definition is_equivalent :: "lst_t \<Rightarrow> lst_index_t \<Rightarrow> lst_index_t \<Rightarrow> bool" where
  "is_equivalent st i j \<longleftrightarrow> index_reduce st (i - j) = 0"

definition item :: "lst_t \<Rightarrow> lst_index_t \<Rightarrow> ptr" where
  "item st i = p st (index_reduce st i)"

text \<open>C's \<open>%\<close> truncates towards zero; a zero divisor traps and is checked by the callers.\<close>

definition c_rem :: "int \<Rightarrow> int \<Rightarrow> int" where
  "c_rem a b = sgn a * (\<bar>a\<bar> mod \<bar>b\<bar>)"

text \<open>\<open>rand()\<close>: the next element of the sequence of draws.\<close>

definition rand :: "lst_t \<Rightarrow> int \<times> lst_t" where
  "rand st = (int (rnd st 0), st\<lparr>rnd := (\<lambda>i. rnd st (Suc i))\<rparr>)"

subsection \<open>The pivot stack\<close>

definition stack_alloc :: "pivot_stack_t" where
  "stack_alloc = \<lparr>depth = 0, size_s = INITIAL_STACK_CAPACITY, data = (\<lambda>_. 0)\<rparr>"

definition stack_expand :: "bool \<Rightarrow> pivot_stack_t \<Rightarrow> bool \<times> pivot_stack_t" where
  "stack_expand ok stk = (if \<not> ok then (False, stk) else (True, stk\<lparr>size_s := 2 * size_s stk\<rparr>))"

definition stack_push :: "bool \<Rightarrow> pivot_stack_t \<Rightarrow> lst_index_t \<Rightarrow> int \<times> pivot_stack_t" where
  "stack_push ok stk pivot =
     (let (grown, stk1) = (if depth stk = size_s stk then stack_expand ok stk else (True, stk))
      in if \<not> grown then (- 1, stk1)
         else (0, stk1\<lparr>data := (data stk1)(depth stk1 := pivot), depth := depth stk1 + 1\<rparr>))"

text \<open>
  \<open>stack_pop\<close> is called with \<open>depth - stack_index\<close> converted to \<open>size_t\<close>; the
  subtraction from the depth is modular in C, so the result is the mathematical
  difference whenever that is not negative.
\<close>

definition stack_pop :: "pivot_stack_t \<Rightarrow> int \<Rightarrow> pivot_stack_t" where
  "stack_pop stk n = stk\<lparr>depth := nat (int (depth stk) - n)\<rparr>"

definition stack_depth :: "pivot_stack_t \<Rightarrow> nat" where
  "stack_depth stk = depth stk"

definition stack_item :: "pivot_stack_t \<Rightarrow> stack_index_t \<Rightarrow> lst_index_t" where
  "stack_item stk i = data stk i"

definition stack_set :: "pivot_stack_t \<Rightarrow> stack_index_t \<Rightarrow> lst_index_t \<Rightarrow> pivot_stack_t" where
  "stack_set stk i v = stk\<lparr>data := (data stk)(i := v)\<rparr>"

definition pivot_item :: "lst_t \<Rightarrow> stack_index_t \<Rightarrow> ptr" where
  "pivot_item st k = item st (stack_item (s st) k)"

subsection \<open>Allocation, length, size, flatten, move\<close>

text \<open>
  \<open>_lst_alloc\<close> (C names with a leading underscore carry the prefix \<open>u\<close> here). The
  handle fields of the user records, the draws and the allocator are the environment the
  LST is created in. \<open>None\<close> is the NULL the source returns when an allocation fails.
\<close>

definition u_lst_alloc ::
  "(ptr \<Rightarrow> ptr \<Rightarrow> int) \<Rightarrow> nat \<Rightarrow> (ptr \<Rightarrow> lst_index_t) \<Rightarrow> (nat \<Rightarrow> nat) \<Rightarrow> bool \<Rightarrow> lst_t option" where
  "u_lst_alloc c off h r ok =
     (if \<not> ok then None
      else Some \<lparr>capacity = INITIAL_CAPACITY, idx = 0, num_elements = 0, offset = off,
                 p = (\<lambda>_. NULL), s = snd (stack_push ok stack_alloc 0), cmp = c,
                 hnd = h, rnd = r, mem_ok = ok\<rparr>)"

definition lst_length :: "lst_t \<Rightarrow> stack_index_t \<Rightarrow> int" where
  "lst_length st stack_index = int (stack_depth (s st)) - int stack_index"

definition is_bucket :: "lst_t \<Rightarrow> stack_index_t \<Rightarrow> bool" where
  "is_bucket st stack_index \<longleftrightarrow> lst_length st stack_index = 1"

definition lst_size :: "lst_t \<Rightarrow> stack_index_t \<Rightarrow> lst_index_t" where
  "lst_size st stack_index =
     (if stack_index = 0 then num_elements st
      else let reduced_right = index_reduce st (stack_item (s st) stack_index);
               reduced_idx = index_reduce st (idx st)
           in if reduced_idx \<le> reduced_right then reduced_right - reduced_idx
              else (capacity st - reduced_idx) + reduced_right)"

definition lst_flatten :: "lst_t \<Rightarrow> stack_index_t \<Rightarrow> lst_t" where
  "lst_flatten st stack_index =
     st\<lparr>s := stack_pop (s st) (int (stack_depth (s st)) - int stack_index)\<rparr>"

definition lst_move :: "lst_t \<Rightarrow> lst_index_t \<Rightarrow> ptr \<Rightarrow> lst_t" where
  "lst_move st location d =
     st\<lparr>p := (p st)(index_reduce st location := d),
        hnd := (hnd st)(d := index_reduce st location)\<rparr>"

subsection \<open>bucket\_add\<close>

text \<open>One iteration of the \<open>for\<close> loop of \<open>bucket_add\<close>, and the loop.\<close>

definition bucket_add_step :: "lst_t \<Rightarrow> nat \<Rightarrow> lst_t" where
  "bucket_add_step st rindex =
     (let prev_pivot_index = stack_item (s st) (rindex + 1);
          new_space = stack_item (s st) rindex;
          empty_bucket = (new_space - prev_pivot_index = 1);
          st1 = st\<lparr>s := stack_set (s st) rindex (new_space + 1)\<rparr>;
          st2 = (if \<not> empty_bucket
                 then lst_move st1 new_space (item st1 (prev_pivot_index + 1)) else st1)
      in lst_move st2 (prev_pivot_index + 1) (item st2 prev_pivot_index))"

function bucket_add_loop :: "lst_t \<Rightarrow> nat \<Rightarrow> stack_index_t \<Rightarrow> lst_t" where
  "bucket_add_loop st rindex stack_index =
     (if rindex < stack_index
      then bucket_add_loop (bucket_add_step st rindex) (rindex + 1) stack_index
      else st)"
  by pat_completeness auto
termination
  by (relation "measure (\<lambda>(st, r, k). k - r)") auto

declare bucket_add_loop.simps [simp del]

definition bucket_add :: "lst_t \<Rightarrow> stack_index_t \<Rightarrow> ptr \<Rightarrow> lst_t" where
  "bucket_add st stack_index d =
     (let st1 = bucket_add_loop st 0 stack_index;
          new_space = stack_item (s st1) stack_index;
          st2 = st1\<lparr>s := stack_set (s st1) stack_index (new_space + 1)\<rparr>;
          st3 = lst_move st2 new_space d
      in st3\<lparr>num_elements := num_elements st3 + 1\<rparr>)"

subsection \<open>Index normalisation and expansion\<close>

function reduce_loop :: "lst_t \<Rightarrow> lst_index_t \<Rightarrow> nat \<Rightarrow> nat \<Rightarrow> lst_t" where
  "reduce_loop st reduced_idx i dpth =
     (if i < dpth then
        reduce_loop (st\<lparr>s := stack_set (s st) i (reduced_idx + stack_item (s st) i - idx st)\<rparr>)
          reduced_idx (i + 1) dpth
      else st)"
  by pat_completeness auto
termination
  by (relation "measure (\<lambda>(st, r, i, d). d - i)") auto

declare reduce_loop.simps [simp del]

definition lst_indices_reduce :: "lst_t \<Rightarrow> lst_t" where
  "lst_indices_reduce st =
     (let reduced_idx = index_reduce st (idx st);
          dpth = stack_depth (s st);
          st1 = reduce_loop st reduced_idx 0 dpth
      in st1\<lparr>idx := reduced_idx\<rparr>)"

text \<open>One iteration of the \<open>for\<close> loop of \<open>lst_expand\<close>, and the loop.\<close>

definition expand_step :: "lst_t \<Rightarrow> lst_index_t \<Rightarrow> lst_index_t \<Rightarrow> lst_t" where
  "expand_step st old_capacity i =
     (let to_be_moved = item st i;
          new_index = item_index st to_be_moved + old_capacity
      in lst_move st new_index to_be_moved)"

function expand_loop :: "lst_t \<Rightarrow> lst_index_t \<Rightarrow> lst_index_t \<Rightarrow> lst_t" where
  "expand_loop st old_capacity i =
     (if i < idx st then expand_loop (expand_step st old_capacity i) old_capacity (i + 1)
      else st)"
  by pat_completeness auto
termination
  by (relation "measure (\<lambda>(st, c, i). nat (idx st - i))")
     (auto simp: expand_step_def lst_move_def Let_def)

declare expand_loop.simps [simp del]

text \<open>
  The integer types that meet in \<open>lst_expand\<close>, on a platform with a 32-bit \<open>int\<close> and
  64-bit \<open>size_t\<close> and pointers. \<open>c_int\<close> is the value an \<open>int\<close> holds after a
  computation or a conversion whose mathematical result is \<open>x\<close> (two's complement
  wrap-around, which is what the compiled code does where the C standard leaves the
  overflow of an \<open>int\<close> undefined); \<open>c_size_t\<close> is the same for \<open>size_t\<close>.
\<close>

definition INT_MAX :: int where
  "INT_MAX = 2 ^ 31 - 1"

definition PTRDIFF_MAX :: int where
  "PTRDIFF_MAX = 2 ^ 63 - 1"

definition c_int :: "int \<Rightarrow> int" where
  "c_int x = (x + 2 ^ 31) mod 2 ^ 32 - 2 ^ 31"

definition c_size_t :: "int \<Rightarrow> int" where
  "c_size_t x = x mod 2 ^ 64"

text \<open>
  Whether \<open>realloc\<close> returns a block of \<open>bytes\<close> bytes: never for a request above
  \<open>PTRDIFF_MAX\<close>, and otherwise when the allocator has memory.
\<close>

definition realloc_ok :: "lst_t \<Rightarrow> int \<Rightarrow> bool" where
  "realloc_ok st bytes \<longleftrightarrow> mem_ok st \<and> bytes \<le> PTRDIFF_MAX"

text \<open>
  \<open>2 * lst->capacity\<close> is a product of two \<open>int\<close>, converted to \<open>size_t\<close>; the size
  of a pointer is 8; the new capacity is converted back to \<open>int\<close>. \<open>realloc\<close> keeps
  the first \<open>capacity\<close> entries of \<open>p\<close>; the new entries hold whatever the function \<open>p\<close>
  has there.
\<close>

definition lst_expand :: "lst_t \<Rightarrow> bool \<times> lst_t" where
  "lst_expand st =
     (let n_capacity = c_size_t (c_int (2 * capacity st));
          old_capacity = capacity st
      in if \<not> realloc_ok st (c_size_t (8 * n_capacity)) then (False, st)
         else (True, expand_loop (lst_indices_reduce (st\<lparr>capacity := c_int n_capacity\<rparr>))
                       old_capacity 0))"

subsection \<open>Buckets and partition\<close>

definition bucket_lwb :: "lst_t \<Rightarrow> stack_index_t \<Rightarrow> lst_index_t" where
  "bucket_lwb st stack_index =
     (if is_bucket st stack_index then idx st else stack_item (s st) (stack_index + 1) + 1)"

definition bucket_upb :: "lst_t \<Rightarrow> stack_index_t \<Rightarrow> lst_index_t" where
  "bucket_upb st stack_index = stack_item (s st) stack_index - 1"

text \<open>
  The two scans and the outer loop of the Hoare partition have no bound in the source:
  they are partial functions, and \<open>None\<close> means that the loop does not return.
\<close>

partial_function (option) scan_h :: "lst_t \<Rightarrow> ptr \<Rightarrow> lst_index_t \<Rightarrow> lst_index_t option" where
  "scan_h st pivot h =
     (if cmp st (item st (h - 1)) pivot > 0 then scan_h st pivot (h - 1) else Some (h - 1))"

declare scan_h.simps [code]

partial_function (option) scan_l :: "lst_t \<Rightarrow> ptr \<Rightarrow> lst_index_t \<Rightarrow> lst_index_t option" where
  "scan_l st pivot l =
     (if cmp st (item st (l + 1)) pivot < 0 then scan_l st pivot (l + 1) else Some (l + 1))"

declare scan_l.simps [code]

partial_function (option) hoare_loop ::
  "lst_t \<Rightarrow> ptr \<Rightarrow> lst_index_t \<Rightarrow> lst_index_t \<Rightarrow> (lst_t \<times> lst_index_t \<times> lst_index_t) option" where
  "hoare_loop st pivot l h =
     (case scan_h st pivot h of
        None \<Rightarrow> None
      | Some h1 \<Rightarrow>
          (case scan_l st pivot l of
             None \<Rightarrow> None
           | Some l1 \<Rightarrow>
               if l1 \<ge> h1 then Some (st, l1, h1)
               else hoare_loop (lst_move (lst_move st l1 (item st h1)) h1 (item st l1)) pivot l1 h1))"

declare hoare_loop.simps [code]

text \<open>
  \<open>partition\<close> in three parts, in the order of the source: the choice of the pivot and
  its move to \<open>low\<close>; the Hoare loop above; and the search for the pivot through its
  handle field with the move to \<open>h\<close> (or to \<open>h + 1\<close>). \<open>stack_push\<close> may fail, and
  \<open>partition\<close> ignores its result, as the source does.
\<close>

definition choose_pivot :: "lst_t \<Rightarrow> lst_index_t \<Rightarrow> lst_index_t \<Rightarrow> ptr \<times> lst_t" where
  "choose_pivot st low high =
     (let (r, st0) = rand st;
          pivot_index = low + c_rem r (high + 1 - low);
          pivot = item st0 pivot_index
      in (pivot,
          if pivot_index \<noteq> low
          then lst_move (lst_move st0 pivot_index (item st0 low)) low pivot
          else st0))"

definition place_pivot ::
  "lst_t \<Rightarrow> lst_index_t \<Rightarrow> lst_index_t \<Rightarrow> lst_index_t \<Rightarrow> ptr \<Rightarrow> lst_index_t \<times> lst_t" where
  "place_pivot st low high h pivot =
     (let pi0 = item_index st pivot;
          pivot_index =
            (if pi0 \<ge> index_reduce st low
             then low + pi0 - index_reduce st low
             else high - (index_reduce st high - pi0));
          st1 = (if pivot_index < h
                 then lst_move (lst_move st pivot_index (item st h)) h pivot
                 else st)
      in if pivot_index > h
         then (h + 1, lst_move (lst_move st1 pivot_index (item st1 (h + 1))) (h + 1) pivot)
         else (h, st1))"

definition partition :: "lst_t \<Rightarrow> stack_index_t \<Rightarrow> lst_t option" where
  "partition st stack_index =
     (let low = bucket_lwb st stack_index;
          high = bucket_upb st stack_index
      in if is_equivalent st low high
         then Some (st\<lparr>s := snd (stack_push (mem_ok st) (s st) low)\<rparr>)
         else if high + 1 - low = 0 then None
         else
           (let (pivot, st1) = choose_pivot st low high
            in case hoare_loop st1 pivot (low - 1) (high + 1) of
                 None \<Rightarrow> None
               | Some (st2, l, h) \<Rightarrow>
                   (let (h2, st3) = place_pivot st2 low high h pivot
                    in Some (st3\<lparr>s := snd (stack_push (mem_ok st3) (s st3) h2)\<rparr>))))"

subsection \<open>bucket\_delete\<close>

text \<open>
  The part of the loop body before \<open>if (stack_index == 0) break\<close>, and the loop: it
  goes on with the pivot above moved down, one stack index lower.
\<close>

definition bucket_delete_step :: "lst_t \<Rightarrow> stack_index_t \<Rightarrow> lst_index_t \<Rightarrow> lst_t" where
  "bucket_delete_step st stack_index location =
     (let top = bucket_upb st stack_index;
          st1 = (if \<not> is_equivalent st location top
                 then lst_move st location (item st top) else st)
      in st1\<lparr>s := stack_set (s st1) stack_index top\<rparr>)"

fun bucket_delete_loop :: "lst_t \<Rightarrow> stack_index_t \<Rightarrow> lst_index_t \<Rightarrow> lst_t" where
  "bucket_delete_loop st 0 location = bucket_delete_step st 0 location"
| "bucket_delete_loop st (Suc k) location =
     (let top = bucket_upb st (Suc k);
          st2 = bucket_delete_step st (Suc k) location;
          st3 = lst_move st2 top (item st2 (top + 1))
      in bucket_delete_loop st3 k (top + 1))"

definition bucket_delete :: "lst_t \<Rightarrow> stack_index_t \<Rightarrow> ptr \<Rightarrow> lst_t" where
  "bucket_delete st stack_index d =
     (let location = item_index st d;
          st1 = (if is_equivalent st location (idx st)
                 then (let st' = st\<lparr>idx := idx st + 1\<rparr>
                       in if is_equivalent st' (idx st') 0 then lst_indices_reduce st' else st')
                 else bucket_delete_loop st stack_index location);
          st2 = st1\<lparr>num_elements := num_elements st1 - 1\<rparr>
      in st2\<lparr>hnd := (hnd st2)(d := - 1)\<rparr>)"

subsection \<open>The recursive descents\<close>

text \<open>
  \<open>_lst_pop\<close>, \<open>_lst_peek\<close>, \<open>_lst_extract\<close> and \<open>_lst_insert\<close> recurse with a growing
  stack index and stop at a bucket; nothing in the source bounds the recursion, so these
  are partial functions as well.
\<close>

partial_function (option) u_lst_pop :: "lst_t \<Rightarrow> stack_index_t \<Rightarrow> (ptr \<times> lst_t) option" where
  "u_lst_pop st stack_index =
     (case (if is_bucket st stack_index then partition st stack_index else Some st) of
        None \<Rightarrow> None
      | Some st1 \<Rightarrow>
          if lst_size st1 (stack_index + 1) = 0 then
            (let min = pivot_item st1 (stack_index + 1);
                 st2 = lst_flatten st1 (stack_index + 1);
                 st3 = bucket_delete st2 (stack_index + 1) min
             in Some (min, st3))
          else u_lst_pop st1 (stack_index + 1))"

declare u_lst_pop.simps [code]

partial_function (option) u_lst_peek :: "lst_t \<Rightarrow> stack_index_t \<Rightarrow> (ptr \<times> lst_t) option" where
  "u_lst_peek st stack_index =
     (case (if is_bucket st stack_index then partition st stack_index else Some st) of
        None \<Rightarrow> None
      | Some st1 \<Rightarrow>
          if lst_size st1 (stack_index + 1) = 0 then Some (pivot_item st1 (stack_index + 1), st1)
          else u_lst_peek st1 (stack_index + 1))"

declare u_lst_peek.simps [code]

partial_function (option) u_lst_extract :: "lst_t \<Rightarrow> stack_index_t \<Rightarrow> ptr \<Rightarrow> lst_t option" where
  "u_lst_extract st stack_index d =
     (if is_bucket st stack_index then Some (bucket_delete st stack_index d)
      else (let c = cmp st d (pivot_item st (stack_index + 1))
            in if c < 0 then u_lst_extract st (stack_index + 1) d
               else if c > 0 then Some (bucket_delete st (stack_index + 1 - 1) d)
               else Some (bucket_delete (lst_flatten st (stack_index + 1)) (stack_index + 1) d)))"

declare u_lst_extract.simps [code]

partial_function (option) u_lst_insert :: "lst_t \<Rightarrow> stack_index_t \<Rightarrow> ptr \<Rightarrow> lst_t option" where
  "u_lst_insert st stack_index d =
     (if is_bucket st stack_index then Some (bucket_add st stack_index d)
      else if lst_size st (stack_index + 1) + 1 = 0 then None
      else (let (r, st1) = rand st
            in if c_rem r (lst_size st1 (stack_index + 1) + 1) \<noteq> 0 then
                 (if cmp st1 d (pivot_item st1 (stack_index + 1)) < 0
                  then u_lst_insert st1 (stack_index + 1) d
                  else Some (bucket_add st1 (stack_index + 1 - 1) d))
               else Some (bucket_add (lst_flatten st1 (stack_index + 1)) (stack_index + 1) d)))"

declare u_lst_insert.simps [code]

subsection \<open>The public operations\<close>

text \<open>
  The outer \<open>option\<close> of a result is \<open>None\<close> when the call does not return. \<open>lst_pop\<close>,
  \<open>lst_peek\<close> and the iterator return a record or NULL: the inner \<open>option\<close>, with
  \<open>None\<close> for the NULL the source returns. \<open>lst_insert\<close> and \<open>lst_extract\<close> return
  the C status, \<open>1\<close> or \<open>- 1\<close>.
\<close>

definition lst_pop :: "lst_t \<Rightarrow> (ptr option \<times> lst_t) option" where
  "lst_pop st =
     (if num_elements st = 0 then Some (None, st)
      else map_option (\<lambda>(m, st1). (Some m, st1)) (u_lst_pop st 0))"

definition lst_peek :: "lst_t \<Rightarrow> (ptr option \<times> lst_t) option" where
  "lst_peek st =
     (if num_elements st = 0 then Some (None, st)
      else map_option (\<lambda>(m, st1). (Some m, st1)) (u_lst_peek st 0))"

definition lst_extract :: "lst_t \<Rightarrow> ptr \<Rightarrow> (int \<times> lst_t) option" where
  "lst_extract st d =
     (if num_elements st = 0 \<or> item_index st d < 0 then Some (- 1, st)
      else map_option (\<lambda>st1. (1, st1)) (u_lst_extract st 0 d))"

definition lst_insert :: "lst_t \<Rightarrow> ptr \<Rightarrow> (int \<times> lst_t) option" where
  "lst_insert st d =
     (let (grown, st1) = (if num_elements st = capacity st then lst_expand st else (True, st))
      in if \<not> grown then Some (- 1, st1)
         else (let data_index = item_index st1 d
               in if data_index > 0 \<or>
                     (data_index = 0 \<and> num_elements st1 > 0 \<and> idx st1 = 0 \<and> item st1 0 = d)
                  then Some (- 1, st1)
                  else map_option (\<lambda>st2. (1, st2)) (u_lst_insert st1 0 d)))"

definition lst_num_elements :: "lst_t \<Rightarrow> lst_index_t" where
  "lst_num_elements st = num_elements st"

text \<open>The iterator state \<open>*iter\<close> is passed in and returned. The LST pointer is not NULL.\<close>

definition lst_iter_init :: "lst_t \<Rightarrow> lst_index_t \<Rightarrow> ptr option \<times> lst_index_t" where
  "lst_iter_init st iter =
     (if num_elements st = 0 then (None, iter) else (Some (item st (idx st)), idx st))"

definition lst_iter_next :: "lst_t \<Rightarrow> lst_index_t \<Rightarrow> ptr option \<times> lst_index_t" where
  "lst_iter_next st iter =
     (if iter + 1 \<ge> stack_item (s st) 0 then (None, iter)
      else (Some (item st (iter + 1)), iter + 1))"

section \<open>Invariants and notions of the specification\<close>

text \<open>The capacity is a power of two: 1, or an even number whose half is a power of two.\<close>

function is_pow2 :: "int \<Rightarrow> bool" where
  "is_pow2 c = (if c \<le> 1 then c = 1 else even c \<and> is_pow2 (c div 2))"
  by pat_completeness auto
termination
  by (relation "measure nat") auto

declare is_pow2.simps [simp del]

definition pow2 :: "int \<Rightarrow> bool" where
  "pow2 c \<longleftrightarrow> (\<exists>k::nat. c = 2 ^ k)"

text \<open>
  The fictitious pivot: the stack is not empty and its bottom entry is exactly
  \<open>idx + num_elements\<close>.
\<close>

definition fict_inv :: "lst_t \<Rightarrow> bool" where
  "fict_inv st \<longleftrightarrow>
     1 \<le> depth (s st) \<and> stack_item (s st) 0 = idx st + num_elements st"

text \<open>
  A comparator is a total preorder given by signs: reflexive, the sign flips when the
  arguments are exchanged, and "does not follow" is transitive. Records that compare
  equal need not be the same record.
\<close>

definition cmp_ok :: "(ptr \<Rightarrow> ptr \<Rightarrow> int) \<Rightarrow> bool" where
  "cmp_ok c \<longleftrightarrow>
     (\<forall>a. c a a = 0) \<and>
     (\<forall>a b. (c a b < 0) = (0 < c b a)) \<and>
     (\<forall>a b d. c a b \<le> 0 \<longrightarrow> c b d \<le> 0 \<longrightarrow> c a d \<le> 0)"

text \<open>The resident records: those at the logical indices \<open>idx, ..., idx + num_elements - 1\<close>.\<close>

definition resident :: "lst_t \<Rightarrow> ptr set" where
  "resident st = item st ` {idx st..<idx st + num_elements st}"

text \<open>
  The invariants I1 to I6 of the specification, with the range of \<open>idx\<close> the code keeps
  (\<open>idx\<close> is reduced whenever it reaches a multiple of the capacity).
\<close>

definition lst_inv :: "lst_t \<Rightarrow> bool" where
  "lst_inv st \<longleftrightarrow>
     is_pow2 (capacity st) \<and>
     1 \<le> depth (s st) \<and>
     0 \<le> idx st \<and> idx st < capacity st \<and>
     0 \<le> num_elements st \<and> num_elements st \<le> capacity st \<and>
     stack_item (s st) 0 = idx st + num_elements st \<and>
     (\<forall>k \<in> {1..<depth (s st)}. stack_item (s st) k < stack_item (s st) (k - 1)) \<and>
     idx st \<le> stack_item (s st) (depth (s st) - 1) \<and>
     (\<forall>i \<in> {idx st..<idx st + num_elements st}.
         item_index st (item st i) = index_reduce st i) \<and>
     (\<forall>k \<in> {1..<depth (s st)}. \<forall>i \<in> {idx st..<idx st + num_elements st}.
         (i < stack_item (s st) k \<longrightarrow> cmp st (item st i) (pivot_item st k) \<le> 0) \<and>
         (stack_item (s st) k < i \<longrightarrow> 0 \<le> cmp st (item st i) (pivot_item st k)))"

text \<open>
  A whole iteration: \<open>lst_iter_init\<close>, then \<open>lst_iter_next\<close> until it returns NULL,
  collecting the records returned. \<open>iter0\<close> is the value the caller's iterator variable
  holds before the call.
\<close>

function iter_rest :: "lst_t \<Rightarrow> lst_index_t \<Rightarrow> ptr list" where
  "iter_rest st iter =
     (case lst_iter_next st iter of
        (None, _) \<Rightarrow> []
      | (Some x, iter') \<Rightarrow> x # iter_rest st iter')"
  by pat_completeness auto
termination
  by (relation "measure (\<lambda>(st, iter). nat (stack_item (s st) 0 - iter))")
     (auto simp: lst_iter_next_def split: if_splits)

declare iter_rest.simps [simp del]

definition iterate :: "lst_t \<Rightarrow> lst_index_t \<Rightarrow> ptr list" where
  "iterate st iter0 =
     (case lst_iter_init st iter0 of
        (None, _) \<Rightarrow> []
      | (Some x, iter) \<Rightarrow> x # iter_rest st iter)"


text \<open>Insertion of a list of records, each call returning 1, and \<open>n\<close> successive pops.\<close>

fun insert_all :: "lst_t \<Rightarrow> ptr list \<Rightarrow> lst_t option" where
  "insert_all st [] = Some st"
| "insert_all st (d # ds) =
     (case lst_insert st d of
        None \<Rightarrow> None
      | Some (r, st') \<Rightarrow> if r = 1 then insert_all st' ds else None)"

fun pop_n :: "lst_t \<Rightarrow> nat \<Rightarrow> (ptr option list \<times> lst_t) option" where
  "pop_n st 0 = Some ([], st)"
| "pop_n st (Suc n) =
     (case lst_pop st of
        None \<Rightarrow> None
      | Some (r, st') \<Rightarrow>
          (case pop_n st' n of
             None \<Rightarrow> None
           | Some (rs, st'') \<Rightarrow> Some (r # rs, st'')))"

subsection \<open>Example states\<close>

text \<open>
  Records compared by their addresses; a fresh LST whose draws are all 0; the LST after
  the insertion of the records 5, 3 and 7; a full LST holding the records 1 to 2048 in
  the slots 0 to 2047; and the LST after the record 5 was inserted and popped.
\<close>

definition ex_cmp :: "ptr \<Rightarrow> ptr \<Rightarrow> int" where
  "ex_cmp a b = (if a < b then - 1 else if b < a then 1 else 0)"

definition ex_init :: lst_t where
  "ex_init = the (u_lst_alloc ex_cmp 0 (\<lambda>_. 0) (\<lambda>_. 0) True)"

definition ex3 :: lst_t where
  "ex3 = the (insert_all ex_init [5, 3, 7])"

definition ex_full :: lst_t where
  "ex_full = \<lparr>capacity = 2048, idx = 0, num_elements = 2048, offset = 0,
               p = (\<lambda>i. nat i + 1),
               s = \<lparr>depth = 1, size_s = 32, data = (\<lambda>k. if k = 0 then 2048 else 0)\<rparr>,
               cmp = ex_cmp, hnd = (\<lambda>d. int d - 1), rnd = (\<lambda>_. 0), mem_ok = True\<rparr>"

definition ex_popped :: lst_t where
  "ex_popped = snd (the (lst_pop (the (insert_all ex_init [5]))))"

text \<open>The state of the expansion loop after the slots below i were moved.\<close>

definition expanding :: "lst_t \<Rightarrow> lst_t \<Rightarrow> int \<Rightarrow> bool" where
  "expanding st st1 i \<longleftrightarrow>
     capacity st1 = 2 * capacity st \<and> idx st1 = idx st \<and>
     (\<forall>j. 0 \<le> j \<and> j < capacity st \<longrightarrow> p st1 j = p st j) \<and>
     (\<forall>j. 0 \<le> j \<and> j < i \<longrightarrow> p st1 (j + capacity st) = p st j) \<and>
     (\<forall>y. hnd st1 y = (if y \<in> p st ` {0..<i} then hnd st y + capacity st else hnd st y))"

text \<open>
  A full LST whose contents wrap around: the records 3 to 2048 in the slots 2 to 2047,
  then the records 2049 and 2050 in the slots 0 and 1.
\<close>

definition ex_wrap :: lst_t where
  "ex_wrap = \<lparr>capacity = 2048, idx = 2, num_elements = 2048, offset = 0,
               p = (\<lambda>i. if i < 2 then nat i + 2049 else nat i + 1),
               s = \<lparr>depth = 1, size_s = 32, data = (\<lambda>k. if k = 0 then 2050 else 0)\<rparr>,
               cmp = ex_cmp,
               hnd = (\<lambda>d. if 2048 < d then int d - 2049 else int d - 1),
               rnd = (\<lambda>_. 0), mem_ok = True\<rparr>"

text \<open>
  A full LST of the largest capacity an \<open>int\<close> allows for a power of two: the records 1
  to \<open>2 ^ 30\<close> in the slots 0 to \<open>2 ^ 30 - 1\<close>.
\<close>

definition ex_big :: lst_t where
  "ex_big = \<lparr>capacity = 2 ^ 30, idx = 0, num_elements = 2 ^ 30, offset = 0,
              p = (\<lambda>i. nat i + 1),
              s = \<lparr>depth = 1, size_s = 32, data = (\<lambda>k. if k = 0 then 2 ^ 30 else 0)\<rparr>,
              cmp = ex_cmp, hnd = (\<lambda>d. int d - 1), rnd = (\<lambda>_. 0), mem_ok = True\<rparr>"

text \<open>
  An LST whose only record, the record 1, is in the last slot, as after 2048 insertions
  and 2047 pops; the other records were never inserted and their handle fields are 0.
\<close>

definition ex_last :: lst_t where
  "ex_last = \<lparr>capacity = 2048, idx = 2047, num_elements = 1, offset = 0,
               p = (\<lambda>i. if i = 2047 then 1 else 0),
               s = \<lparr>depth = 1, size_s = 32, data = (\<lambda>k. if k = 0 then 2048 else 0)\<rparr>,
               cmp = ex_cmp, hnd = (\<lambda>d. if d = 1 then 2047 else 0),
               rnd = (\<lambda>_. 0), mem_ok = True\<rparr>"

definition live :: "lst_t \<Rightarrow> int set" where
  "live st = {idx st..<idx st + num_elements st}"

definition arr_inv :: "lst_t \<Rightarrow> bool" where
  "arr_inv st \<longleftrightarrow>
     pow2 (capacity st) \<and> 0 \<le> num_elements st \<and> num_elements st \<le> capacity st \<and>
     (\<forall>i \<in> live st. hnd st (item st i) = index_reduce st i)"

definition swap_items :: "lst_t \<Rightarrow> int \<Rightarrow> int \<Rightarrow> lst_t" where
  "swap_items st a b = lst_move (lst_move st a (item st b)) b (item st a)"

text \<open>
  \<open>shuffled st0 st lo hi\<close>: \<open>st\<close> comes from \<open>st0\<close> by exchanges of records inside the
  logical range \<open>[lo, hi]\<close>; the handle fields follow the records.
\<close>

definition framed :: "lst_t \<Rightarrow> lst_t \<Rightarrow> bool" where
  "framed st0 st \<longleftrightarrow>
     capacity st = capacity st0 \<and> idx st = idx st0 \<and> num_elements st = num_elements st0 \<and>
     s st = s st0 \<and> cmp st = cmp st0 \<and> mem_ok st = mem_ok st0"

definition shuffled :: "lst_t \<Rightarrow> lst_t \<Rightarrow> int \<Rightarrow> int \<Rightarrow> bool" where
  "shuffled st0 st lo hi \<longleftrightarrow>
     framed st0 st \<and> arr_inv st \<and>
     item st ` {lo..hi} = item st0 ` {lo..hi} \<and>
     (\<forall>i \<in> live st0 - {lo..hi}. item st i = item st0 i) \<and>
     (\<forall>y. y \<notin> item st0 ` {lo..hi} \<longrightarrow> hnd st y = hnd st0 y)"

section \<open>The comparator and the allocator stay\<close>

definition same_env :: "lst_t \<Rightarrow> lst_t \<Rightarrow> bool" where
  "same_env st st' \<longleftrightarrow> cmp st' = cmp st \<and> mem_ok st' = mem_ok st"

text \<open>
  \<open>peeked st st'\<close>: \<open>st'\<close> comes from \<open>st\<close> by partitions only. The invariants hold,
  the capacity, \<open>idx\<close>, the count and the resident records are the same, the handle
  fields of the other records are untouched, and the stack has only grown.
\<close>

definition peeked :: "lst_t \<Rightarrow> lst_t \<Rightarrow> bool" where
  "peeked st st' \<longleftrightarrow>
     lst_inv st' \<and> capacity st' = capacity st \<and> idx st' = idx st \<and>
     num_elements st' = num_elements st \<and> cmp st' = cmp st \<and> mem_ok st' = mem_ok st \<and>
     resident st' = resident st \<and>
     (\<forall>y. y \<notin> resident st \<longrightarrow> hnd st' y = hnd st y) \<and>
     depth (s st) \<le> depth (s st') \<and>
     (\<forall>j < depth (s st). stack_item (s st') j = stack_item (s st) j)"

text \<open>
  \<open>adding st0 st r\<close>: the state \<open>st\<close> of the loop of \<open>bucket_add\<close> on \<open>st0\<close> after \<open>r\<close>
  iterations. The free slot has travelled from \<open>s[0]\<close> to \<open>s[r]\<close>; the pivots \<open>1\<close> to
  \<open>r\<close> went one slot to the right; the records on the left of the free slot did not
  move, and the records on its right are those that were at \<open>s[r]\<close> or on its right.
\<close>

definition adding :: "lst_t \<Rightarrow> lst_t \<Rightarrow> nat \<Rightarrow> bool" where
  "adding st0 st r \<longleftrightarrow>
     capacity st = capacity st0 \<and> idx st = idx st0 \<and> num_elements st = num_elements st0 \<and>
     cmp st = cmp st0 \<and> mem_ok st = mem_ok st0 \<and> depth (s st) = depth (s st0) \<and>
     (\<forall>j. stack_item (s st) j =
            (if j < r then stack_item (s st0) j + 1 else stack_item (s st0) j)) \<and>
     (\<forall>i. idx st0 \<le> i \<and> i < stack_item (s st0) r \<longrightarrow>
            item st i = item st0 i \<and> hnd st (item st0 i) = hnd st0 (item st0 i)) \<and>
     (\<forall>i. stack_item (s st0) r < i \<and> i \<le> idx st0 + num_elements st0 \<longrightarrow>
            hnd st (item st i) = index_reduce st0 i \<and>
            item st i \<in> item st0 ` {stack_item (s st0) r..<idx st0 + num_elements st0}) \<and>
     (\<forall>i. stack_item (s st0) r \<le> i \<and> i < idx st0 + num_elements st0 \<longrightarrow>
            item st0 i \<in> item st ` {stack_item (s st0) r<..idx st0 + num_elements st0}) \<and>
     (\<forall>y. y \<notin> resident st0 \<longrightarrow> hnd st y = hnd st0 y) \<and>
     (\<forall>j. 1 \<le> j \<and> j \<le> r \<longrightarrow>
            item st (stack_item (s st0) j + 1) = item st0 (stack_item (s st0) j)) \<and>
     (\<forall>j i. 1 \<le> j \<and> j \<le> r \<and> stack_item (s st0) r < i \<and> i \<le> idx st0 + num_elements st0 \<longrightarrow>
            (i < stack_item (s st0) j + 1 \<longrightarrow>
               cmp st0 (item st i) (item st0 (stack_item (s st0) j)) \<le> 0) \<and>
            (stack_item (s st0) j + 1 < i \<longrightarrow>
               0 \<le> cmp st0 (item st i) (item st0 (stack_item (s st0) j))))"

text \<open>
  \<open>inserted st x st'\<close>: \<open>st'\<close> is \<open>st\<close> with the record \<open>x\<close> added. The handle fields
  of the records that are neither resident nor \<open>x\<close> are untouched.
\<close>

definition inserted :: "lst_t \<Rightarrow> ptr \<Rightarrow> lst_t \<Rightarrow> bool" where
  "inserted st x st' \<longleftrightarrow>
     lst_inv st' \<and> resident st' = insert x (resident st) \<and>
     num_elements st' = num_elements st + 1 \<and> idx st' = idx st \<and>
     cmp st' = cmp st \<and> mem_ok st' = mem_ok st \<and>
     (\<forall>y. y \<notin> resident st \<longrightarrow> y \<noteq> x \<longrightarrow> hnd st' y = hnd st y)"



text \<open>
  An LST whose comparator finds all records equal: the records 1 to 4 inserted, then two
  pops. The records 1 and 2 remain, the record 1 is the pivot at \<open>idx\<close>.
\<close>

definition ex_eq :: lst_t where
  "ex_eq = snd (the (lst_pop (snd (the (lst_pop (the (insert_all
             (the (u_lst_alloc (\<lambda>a b. 0) 0 (\<lambda>_. 0) (\<lambda>_. 0) True)) [1, 2, 3, 4])))))))"

section \<open>Basic facts\<close>


lemma and_pow2_mod: "(i::int) AND (2 ^ k - 1) = i mod 2 ^ k"
  by (simp flip: mask_eq_exp_minus_1 take_bit_eq_mask add: take_bit_eq_mod)

lemma index_reduce_mod: "pow2 (capacity st) \<Longrightarrow> index_reduce st i = i mod capacity st"
  by (auto simp: pow2_def index_reduce_def and_pow2_mod)

lemma pow2_pos: "pow2 c \<Longrightarrow> 0 < c"
  by (auto simp: pow2_def)

lemma pow2_double: "pow2 c \<Longrightarrow> pow2 (2 * c)"
  unfolding pow2_def
proof (elim exE)
  fix k :: nat assume "c = 2 ^ k"
  then have "2 * c = 2 ^ Suc k" by simp
  then show "\<exists>k::nat. 2 * c = 2 ^ k" by blast
qed

lemma mod_window_eq:
  fixes i j c :: int
  assumes "i mod c = j mod c" "lo \<le> i" "i < lo + c" "lo \<le> j" "j < lo + c"
  shows "i = j"
proof -
  have "c dvd (i - j)" using assms(1) by (simp add: mod_eq_dvd_iff)
  moreover have "\<bar>i - j\<bar> < c" using assms by linarith
  ultimately show ?thesis
    using zdvd_not_zless[of "\<bar>i - j\<bar>" c] by (cases "i = j") auto
qed



lemma lst_move_fields [simp]:
  "capacity (lst_move st l d) = capacity st"
  "idx (lst_move st l d) = idx st"
  "num_elements (lst_move st l d) = num_elements st"
  "s (lst_move st l d) = s st"
  "cmp (lst_move st l d) = cmp st"
  "rnd (lst_move st l d) = rnd st"
  "mem_ok (lst_move st l d) = mem_ok st"
  "offset (lst_move st l d) = offset st"
  by (simp_all add: lst_move_def)

lemma index_reduce_capacity:
  "capacity st' = capacity st \<Longrightarrow> index_reduce st' i = index_reduce st i"
  by (simp add: index_reduce_def)

lemma index_reduce_simps [simp]:
  "index_reduce (lst_move st l d) i = index_reduce st i"
  "index_reduce (st\<lparr>s := stk\<rparr>) i = index_reduce st i"
  "index_reduce (st\<lparr>idx := j\<rparr>) i = index_reduce st i"
  "index_reduce (st\<lparr>num_elements := n\<rparr>) i = index_reduce st i"
  "index_reduce (st\<lparr>hnd := hf\<rparr>) i = index_reduce st i"
  "index_reduce (st\<lparr>rnd := rf\<rparr>) i = index_reduce st i"
  by (simp_all add: index_reduce_def)

lemma item_simps [simp]:
  "item (st\<lparr>s := stk\<rparr>) i = item st i"
  "item (st\<lparr>idx := j\<rparr>) i = item st i"
  "item (st\<lparr>num_elements := n\<rparr>) i = item st i"
  "item (st\<lparr>hnd := hf\<rparr>) i = item st i"
  "item (st\<lparr>rnd := rf\<rparr>) i = item st i"
  by (simp_all add: item_def index_reduce_def)

lemma item_lst_move:
  "item (lst_move st l d) i = (if index_reduce st i = index_reduce st l then d else item st i)"
  by (simp add: item_def lst_move_def index_reduce_def)

lemma hnd_lst_move:
  "hnd (lst_move st l d) x = (if x = d then index_reduce st l else hnd st x)"
  by (simp add: lst_move_def)

lemma lst_flatten_eq: "lst_flatten st k = st\<lparr>s := (s st)\<lparr>depth := k\<rparr>\<rparr>"
  by (simp add: lst_flatten_def stack_pop_def stack_depth_def)

subsection \<open>What the loops do to the stack, to idx and to the count\<close>

lemma bucket_add_step_fields [simp]:
  "capacity (bucket_add_step st r) = capacity st"
  "idx (bucket_add_step st r) = idx st"
  "num_elements (bucket_add_step st r) = num_elements st"
  "cmp (bucket_add_step st r) = cmp st"
  "rnd (bucket_add_step st r) = rnd st"
  "mem_ok (bucket_add_step st r) = mem_ok st"
  "s (bucket_add_step st r) = stack_set (s st) r (stack_item (s st) r + 1)"
  by (simp_all add: bucket_add_step_def Let_def)

lemma stack_set_fields [simp]:
  "depth (stack_set stk i v) = depth stk"
  "size_s (stack_set stk i v) = size_s stk"
  "data (stack_set stk i v) = (data stk)(i := v)"
  "stack_item (stack_set stk i v) j = (if j = i then v else stack_item stk j)"
  by (simp_all add: stack_set_def stack_item_def)

lemma bucket_add_loop_fields [simp]:
  "capacity (bucket_add_loop st r k) = capacity st"
  "idx (bucket_add_loop st r k) = idx st"
  "num_elements (bucket_add_loop st r k) = num_elements st"
  "cmp (bucket_add_loop st r k) = cmp st"
  "rnd (bucket_add_loop st r k) = rnd st"
  "mem_ok (bucket_add_loop st r k) = mem_ok st"
  "depth (s (bucket_add_loop st r k)) = depth (s st)"
  "size_s (s (bucket_add_loop st r k)) = size_s (s st)"
  by (induction st r k rule: bucket_add_loop.induct;
      subst bucket_add_loop.simps; simp)+

lemma nat_between: "(r::nat) \<le> j \<Longrightarrow> \<not> Suc r \<le> j \<Longrightarrow> j = r"
  by arith

lemma bucket_add_loop_item:
  "stack_item (s (bucket_add_loop st r k)) j =
     (if r \<le> j \<and> j < k then stack_item (s st) j + 1 else stack_item (s st) j)"
  by (induction st r k rule: bucket_add_loop.induct; subst bucket_add_loop.simps)
     (auto dest: nat_between)

lemma bucket_add_fict: "fict_inv st \<Longrightarrow> fict_inv (bucket_add st k d)"
  by (simp add: fict_inv_def bucket_add_def Let_def bucket_add_loop_item)

lemma reduce_loop_fields [simp]:
  "capacity (reduce_loop st r i n) = capacity st"
  "idx (reduce_loop st r i n) = idx st"
  "num_elements (reduce_loop st r i n) = num_elements st"
  "cmp (reduce_loop st r i n) = cmp st"
  "rnd (reduce_loop st r i n) = rnd st"
  "mem_ok (reduce_loop st r i n) = mem_ok st"
  "p (reduce_loop st r i n) = p st"
  "hnd (reduce_loop st r i n) = hnd st"
  "depth (s (reduce_loop st r i n)) = depth (s st)"
  "size_s (s (reduce_loop st r i n)) = size_s (s st)"
  by (induction st r i n rule: reduce_loop.induct; subst reduce_loop.simps; simp)+

lemma reduce_loop_item:
  "stack_item (s (reduce_loop st r i n)) j =
     (if i \<le> j \<and> j < n then r + stack_item (s st) j - idx st else stack_item (s st) j)"
  by (induction st r i n rule: reduce_loop.induct; subst reduce_loop.simps)
     (auto dest: nat_between)

lemma lst_indices_reduce_fict: "fict_inv st \<Longrightarrow> fict_inv (lst_indices_reduce st)"
  by (simp add: fict_inv_def lst_indices_reduce_def Let_def stack_depth_def reduce_loop_item)

lemma expand_step_fields [simp]:
  "capacity (expand_step st c i) = capacity st"
  "idx (expand_step st c i) = idx st"
  "num_elements (expand_step st c i) = num_elements st"
  "cmp (expand_step st c i) = cmp st"
  "rnd (expand_step st c i) = rnd st"
  "mem_ok (expand_step st c i) = mem_ok st"
  "s (expand_step st c i) = s st"
  by (simp_all add: expand_step_def Let_def)

lemma expand_loop_fields [simp]:
  "capacity (expand_loop st c i) = capacity st"
  "idx (expand_loop st c i) = idx st"
  "num_elements (expand_loop st c i) = num_elements st"
  "cmp (expand_loop st c i) = cmp st"
  "rnd (expand_loop st c i) = rnd st"
  "mem_ok (expand_loop st c i) = mem_ok st"
  "s (expand_loop st c i) = s st"
  by (induction st c i rule: expand_loop.induct; subst expand_loop.simps; simp)+

lemma lst_expand_fict: "fict_inv st \<Longrightarrow> fict_inv (snd (lst_expand st))"
  using lst_indices_reduce_fict[of "st\<lparr>capacity := c_int (c_size_t (c_int (2 * capacity st)))\<rparr>"]
  by (simp add: lst_expand_def Let_def fict_inv_def)

lemma bucket_delete_step_fields [simp]:
  "capacity (bucket_delete_step st k l) = capacity st"
  "idx (bucket_delete_step st k l) = idx st"
  "num_elements (bucket_delete_step st k l) = num_elements st"
  "cmp (bucket_delete_step st k l) = cmp st"
  "rnd (bucket_delete_step st k l) = rnd st"
  "mem_ok (bucket_delete_step st k l) = mem_ok st"
  "s (bucket_delete_step st k l) = stack_set (s st) k (stack_item (s st) k - 1)"
  by (simp_all add: bucket_delete_step_def Let_def bucket_upb_def)

lemma bucket_delete_loop_fields [simp]:
  "capacity (bucket_delete_loop st k l) = capacity st"
  "idx (bucket_delete_loop st k l) = idx st"
  "num_elements (bucket_delete_loop st k l) = num_elements st"
  "cmp (bucket_delete_loop st k l) = cmp st"
  "rnd (bucket_delete_loop st k l) = rnd st"
  "mem_ok (bucket_delete_loop st k l) = mem_ok st"
  "depth (s (bucket_delete_loop st k l)) = depth (s st)"
  "size_s (s (bucket_delete_loop st k l)) = size_s (s st)"
  by (induction st k l rule: bucket_delete_loop.induct; simp add: Let_def)+

lemma bucket_delete_loop_item:
  "stack_item (s (bucket_delete_loop st k l)) j =
     (if j \<le> k then stack_item (s st) j - 1 else stack_item (s st) j)"
  by (induction st k l rule: bucket_delete_loop.induct)
     (auto simp: Let_def le_Suc_eq)

lemma bucket_delete_fict: "fict_inv st \<Longrightarrow> fict_inv (bucket_delete st k d)"
  by (simp add: bucket_delete_def Let_def fict_inv_def bucket_delete_loop_item
      lst_indices_reduce_def stack_depth_def reduce_loop_item)

lemma rand_fields [simp]:
  "capacity (snd (rand st)) = capacity st"
  "idx (snd (rand st)) = idx st"
  "num_elements (snd (rand st)) = num_elements st"
  "cmp (snd (rand st)) = cmp st"
  "mem_ok (snd (rand st)) = mem_ok st"
  "s (snd (rand st)) = s st"
  "p (snd (rand st)) = p st"
  "hnd (snd (rand st)) = hnd st"
  by (simp_all add: rand_def)

lemma hoare_loop_fields:
  assumes "hoare_loop st pv l h = Some y"
  shows "capacity (fst y) = capacity st \<and> idx (fst y) = idx st \<and>
     num_elements (fst y) = num_elements st \<and> cmp (fst y) = cmp st \<and>
     rnd (fst y) = rnd st \<and> mem_ok (fst y) = mem_ok st \<and> s (fst y) = s st"
proof (rule hoare_loop.raw_induct[where P = "\<lambda>st pv l h y.
     capacity (fst y) = capacity st \<and> idx (fst y) = idx st \<and>
     num_elements (fst y) = num_elements st \<and> cmp (fst y) = cmp st \<and>
     rnd (fst y) = rnd st \<and> mem_ok (fst y) = mem_ok st \<and> s (fst y) = s st", OF _ assms])
  fix hl :: "lst_t \<Rightarrow> ptr \<Rightarrow> int \<Rightarrow> int \<Rightarrow> (lst_t \<times> int \<times> int) option"
    and st :: lst_t and pv :: ptr and l h :: int and y :: "lst_t \<times> int \<times> int"
  assume IH: "\<And>st pv l h y. hl st pv l h = Some y \<Longrightarrow>
     capacity (fst y) = capacity st \<and> idx (fst y) = idx st \<and>
     num_elements (fst y) = num_elements st \<and> cmp (fst y) = cmp st \<and>
     rnd (fst y) = rnd st \<and> mem_ok (fst y) = mem_ok st \<and> s (fst y) = s st"
  assume eq: "(case scan_h st pv h of None \<Rightarrow> None
      | Some h1 \<Rightarrow>
          (case scan_l st pv l of None \<Rightarrow> None
           | Some l1 \<Rightarrow>
               if l1 \<ge> h1 then Some (st, l1, h1)
               else hl (lst_move (lst_move st l1 (item st h1)) h1 (item st l1)) pv l1 h1)) = Some y"
  from eq show "capacity (fst y) = capacity st \<and> idx (fst y) = idx st \<and>
     num_elements (fst y) = num_elements st \<and> cmp (fst y) = cmp st \<and>
     rnd (fst y) = rnd st \<and> mem_ok (fst y) = mem_ok st \<and> s (fst y) = s st"
    by (auto split: option.splits if_splits dest!: IH)
qed

lemma stack_push_fields:
  "depth stk \<le> depth (snd (stack_push ok stk v))"
  "size_s stk \<le> size_s (snd (stack_push ok stk v))"
  "i < depth stk \<Longrightarrow> stack_item (snd (stack_push ok stk v)) i = stack_item stk i"
  by (auto simp: stack_push_def stack_expand_def stack_item_def Let_def split: prod.splits)

lemma choose_pivot_fields [simp]:
  "capacity (snd (choose_pivot st lo hi)) = capacity st"
  "idx (snd (choose_pivot st lo hi)) = idx st"
  "num_elements (snd (choose_pivot st lo hi)) = num_elements st"
  "cmp (snd (choose_pivot st lo hi)) = cmp st"
  "mem_ok (snd (choose_pivot st lo hi)) = mem_ok st"
  "s (snd (choose_pivot st lo hi)) = s st"
  by (simp_all add: choose_pivot_def Let_def split: prod.splits)
     (auto simp: rand_def)

lemma place_pivot_fields [simp]:
  "capacity (snd (place_pivot st lo hi h pv)) = capacity st"
  "idx (snd (place_pivot st lo hi h pv)) = idx st"
  "num_elements (snd (place_pivot st lo hi h pv)) = num_elements st"
  "cmp (snd (place_pivot st lo hi h pv)) = cmp st"
  "rnd (snd (place_pivot st lo hi h pv)) = rnd st"
  "mem_ok (snd (place_pivot st lo hi h pv)) = mem_ok st"
  "s (snd (place_pivot st lo hi h pv)) = s st"
  by (simp_all add: place_pivot_def Let_def)

lemma fict_inv_cong:
  "s st' = s st \<Longrightarrow> idx st' = idx st \<Longrightarrow> num_elements st' = num_elements st \<Longrightarrow>
   fict_inv st' = fict_inv st"
  by (simp add: fict_inv_def)

lemma fict_inv_push:
  assumes "fict_inv st"
  shows "fict_inv (st\<lparr>s := snd (stack_push ok (s st) v)\<rparr>)"
proof -
  have "0 < depth (s st)" using assms by (simp add: fict_inv_def)
  then show ?thesis
    using stack_push_fields(1)[of "s st" ok v] stack_push_fields(3)[of 0 "s st" ok v] assms
    by (simp add: fict_inv_def)
qed

lemma partition_fict:
  assumes "partition st k = Some st'" "fict_inv st"
  shows "fict_inv st'"
proof (cases "is_equivalent st (bucket_lwb st k) (bucket_upb st k)")
  case True
  then show ?thesis using assms fict_inv_push[of st] by (auto simp: partition_def Let_def)
next
  case False
  define low where "low = bucket_lwb st k"
  define high where "high = bucket_upb st k"
  obtain pv st1 where cp: "choose_pivot st low high = (pv, st1)"
    by (cases "choose_pivot st low high")
  have "s st1 = s st" "idx st1 = idx st" "num_elements st1 = num_elements st"
    using choose_pivot_fields[of st low high] by (simp_all add: cp)
  then have st1: "fict_inv st1"
    using fict_inv_cong[of st1 st] assms(2) by simp
  from assms(1) False cp obtain st2 l h where
    hl: "hoare_loop st1 pv (low - 1) (high + 1) = Some (st2, l, h)"
    by (auto simp: partition_def Let_def low_def high_def split: if_splits option.splits)
  have st2: "fict_inv st2"
    using hoare_loop_fields[OF hl] st1 fict_inv_cong[of st2 st1] by simp
  obtain h2 st3 where pp: "place_pivot st2 low high h pv = (h2, st3)"
    by (cases "place_pivot st2 low high h pv")
  have "s st3 = s st2" "idx st3 = idx st2" "num_elements st3 = num_elements st2"
    using place_pivot_fields[of st2 low high h pv] by (simp_all add: pp)
  then have st3: "fict_inv st3"
    using fict_inv_cong[of st3 st2] st2 by simp
  have "st' = st3\<lparr>s := snd (stack_push (mem_ok st3) (s st3) h2)\<rparr>"
    using assms(1) False cp hl pp
    by (simp add: partition_def Let_def low_def high_def split: if_splits)
  then show ?thesis using fict_inv_push[OF st3] by simp
qed

lemma lst_flatten_fict: "1 \<le> k \<Longrightarrow> fict_inv st \<Longrightarrow> fict_inv (lst_flatten st k)"
  by (simp add: fict_inv_def lst_flatten_eq stack_item_def)

lemma u_lst_pop_fict:
  assumes "u_lst_pop st k = Some y" "fict_inv st"
  shows "fict_inv (snd y)"
proof -
  have "fict_inv st \<longrightarrow> fict_inv (snd y)"
  proof (rule u_lst_pop.raw_induct[where P = "\<lambda>st k y. fict_inv st \<longrightarrow> fict_inv (snd y)",
        OF _ assms(1)])
    fix f :: "lst_t \<Rightarrow> nat \<Rightarrow> (ptr \<times> lst_t) option"
      and st :: lst_t and k :: nat and y :: "ptr \<times> lst_t"
    assume IH: "\<And>st k y. f st k = Some y \<Longrightarrow> fict_inv st \<longrightarrow> fict_inv (snd y)"
    assume eq: "(case (if is_bucket st k then partition st k else Some st) of
        None \<Rightarrow> None
      | Some st1 \<Rightarrow>
          if lst_size st1 (k + 1) = 0 then
            (let min = pivot_item st1 (k + 1);
                 st2 = lst_flatten st1 (k + 1);
                 st3 = bucket_delete st2 (k + 1) min
             in Some (min, st3))
          else f st1 (k + 1)) = Some y"
    show "fict_inv st \<longrightarrow> fict_inv (snd y)"
    proof
      assume a: "fict_inv st"
      from eq obtain st1 where
        st1: "(if is_bucket st k then partition st k else Some st) = Some st1"
        by (auto split: option.splits)
      have f1: "fict_inv st1" using st1 a partition_fict by (auto split: if_splits)
      show "fict_inv (snd y)"
      proof (cases "lst_size st1 (k + 1) = 0")
        case True
        then have "snd y = bucket_delete (lst_flatten st1 (k + 1)) (k + 1) (pivot_item st1 (k + 1))"
          using eq st1 by (auto simp: Let_def)
        then show ?thesis using f1 by (simp add: bucket_delete_fict lst_flatten_fict)
      next
        case False
        then have "f st1 (k + 1) = Some y" using eq st1 by simp
        then show ?thesis using IH f1 by blast
      qed
    qed
  qed
  then show ?thesis using assms(2) by simp
qed

lemma u_lst_peek_fict:
  assumes "u_lst_peek st k = Some y" "fict_inv st"
  shows "fict_inv (snd y)"
proof -
  have "fict_inv st \<longrightarrow> fict_inv (snd y)"
  proof (rule u_lst_peek.raw_induct[where P = "\<lambda>st k y. fict_inv st \<longrightarrow> fict_inv (snd y)",
        OF _ assms(1)])
    fix f :: "lst_t \<Rightarrow> nat \<Rightarrow> (ptr \<times> lst_t) option"
      and st :: lst_t and k :: nat and y :: "ptr \<times> lst_t"
    assume IH: "\<And>st k y. f st k = Some y \<Longrightarrow> fict_inv st \<longrightarrow> fict_inv (snd y)"
    assume eq: "(case (if is_bucket st k then partition st k else Some st) of
        None \<Rightarrow> None
      | Some st1 \<Rightarrow>
          if lst_size st1 (k + 1) = 0 then Some (pivot_item st1 (k + 1), st1)
          else f st1 (k + 1)) = Some y"
    show "fict_inv st \<longrightarrow> fict_inv (snd y)"
    proof
      assume a: "fict_inv st"
      from eq obtain st1 where
        st1: "(if is_bucket st k then partition st k else Some st) = Some st1"
        by (auto split: option.splits)
      have f1: "fict_inv st1" using st1 a partition_fict by (auto split: if_splits)
      show "fict_inv (snd y)"
      proof (cases "lst_size st1 (k + 1) = 0")
        case True
        then show ?thesis using eq st1 f1 by auto
      next
        case False
        then have "f st1 (k + 1) = Some y" using eq st1 by simp
        then show ?thesis using IH f1 by blast
      qed
    qed
  qed
  then show ?thesis using assms(2) by simp
qed

lemma u_lst_extract_fict:
  assumes "u_lst_extract st k d = Some y" "fict_inv st"
  shows "fict_inv y"
proof -
  have "fict_inv st \<longrightarrow> fict_inv y"
  proof (rule u_lst_extract.raw_induct[where P = "\<lambda>st k d y. fict_inv st \<longrightarrow> fict_inv y",
        OF _ assms(1)])
    fix f :: "lst_t \<Rightarrow> nat \<Rightarrow> ptr \<Rightarrow> lst_t option"
      and st :: lst_t and k :: nat and d :: ptr and y :: "lst_t"
    assume IH: "\<And>st k d y. f st k d = Some y \<Longrightarrow> fict_inv st \<longrightarrow> fict_inv y"
    assume eq: "(if is_bucket st k then Some (bucket_delete st k d)
      else (let c = cmp st d (pivot_item st (k + 1))
            in if c < 0 then f st (k + 1) d
               else if c > 0 then Some (bucket_delete st (k + 1 - 1) d)
               else Some (bucket_delete (lst_flatten st (k + 1)) (k + 1) d))) = Some y"
    show "fict_inv st \<longrightarrow> fict_inv y"
      using eq IH[of st "k + 1" d y]
      by (auto simp: Let_def bucket_delete_fict lst_flatten_fict split: if_splits)
  qed
  then show ?thesis using assms(2) by simp
qed

lemma fict_inv_rand: "fict_inv (snd (rand st)) = fict_inv st"
  by (simp add: fict_inv_def)

lemma u_lst_insert_fict:
  assumes "u_lst_insert st k d = Some y" "fict_inv st"
  shows "fict_inv y"
proof -
  have "fict_inv st \<longrightarrow> fict_inv y"
  proof (rule u_lst_insert.raw_induct[where P = "\<lambda>st k d y. fict_inv st \<longrightarrow> fict_inv y",
        OF _ assms(1)])
    fix f :: "lst_t \<Rightarrow> nat \<Rightarrow> ptr \<Rightarrow> lst_t option"
      and st :: lst_t and k :: nat and d :: ptr and y :: "lst_t"
    assume IH: "\<And>st k d y. f st k d = Some y \<Longrightarrow> fict_inv st \<longrightarrow> fict_inv y"
    assume eq: "(if is_bucket st k then Some (bucket_add st k d)
      else if lst_size st (k + 1) + 1 = 0 then None
      else (let (r, st1) = rand st
            in if c_rem r (lst_size st1 (k + 1) + 1) \<noteq> 0 then
                 (if cmp st1 d (pivot_item st1 (k + 1)) < 0
                  then f st1 (k + 1) d
                  else Some (bucket_add st1 (k + 1 - 1) d))
               else Some (bucket_add (lst_flatten st1 (k + 1)) (k + 1) d))) = Some y"
    show "fict_inv st \<longrightarrow> fict_inv y"
      using eq IH[of "snd (rand st)" "k + 1" d y] fict_inv_rand[of st]
      by (auto simp: Let_def bucket_add_fict lst_flatten_fict split: if_splits prod.splits)
  qed
  then show ?thesis using assms(2) by simp
qed

lemma u_lst_alloc_fict: "u_lst_alloc c off h r ok = Some st \<Longrightarrow> fict_inv st"
  by (auto simp: u_lst_alloc_def fict_inv_def stack_push_def stack_alloc_def stack_item_def
      INITIAL_STACK_CAPACITY_def Let_def split: if_splits)


section \<open>Claim C3: the fictitious pivot\<close>

text \<open>
  C3. The equality \<open>s[0] = idx + num_elements\<close> holds exactly (on unreduced logical
  indices), with a stack that is not empty, in the state \<open>_lst_alloc\<close> returns, and every
  public operation that returns (insert, pop, peek, extract), the internal expansion and
  the index normalisation preserve it.
\<close>

theorem fictitious_pivot_exact:
  "(u_lst_alloc c off h r ok = Some st0 \<longrightarrow> fict_inv st0) \<and>
   (fict_inv st \<longrightarrow>
      (\<forall>res st'. lst_insert st d = Some (res, st') \<longrightarrow> fict_inv st') \<and>
      (\<forall>res st'. lst_pop st = Some (res, st') \<longrightarrow> fict_inv st') \<and>
      (\<forall>res st'. lst_peek st = Some (res, st') \<longrightarrow> fict_inv st') \<and>
      (\<forall>res st'. lst_extract st d = Some (res, st') \<longrightarrow> fict_inv st') \<and>
      fict_inv (snd (lst_expand st)) \<and>
      fict_inv (lst_indices_reduce st))"
proof -
  have ins: "fict_inv st' " if "fict_inv st" "lst_insert st d = Some (res, st')" for res st'
  proof -
    define st1 where "st1 = (if num_elements st = capacity st then snd (lst_expand st) else st)"
    have f1: "fict_inv st1" using that(1) by (simp add: st1_def lst_expand_fict)
    have "st' = st1 \<or> u_lst_insert st1 0 d = Some st'"
      using that(2)
      by (auto simp: lst_insert_def Let_def st1_def split: if_splits prod.splits)
    then show ?thesis using f1 u_lst_insert_fict by blast
  qed
  have pop: "fict_inv st'" if "fict_inv st" "lst_pop st = Some (res, st')" for res st'
    using that u_lst_pop_fict[of st 0]
    by (auto simp: lst_pop_def split: if_splits)
  have peek: "fict_inv st'" if "fict_inv st" "lst_peek st = Some (res, st')" for res st'
    using that u_lst_peek_fict[of st 0]
    by (auto simp: lst_peek_def split: if_splits)
  have ext: "fict_inv st'" if "fict_inv st" "lst_extract st d = Some (res, st')" for res st'
    using that u_lst_extract_fict[of st 0 d]
    by (auto simp: lst_extract_def split: if_splits)
  show ?thesis
    using ins pop peek ext u_lst_alloc_fict lst_expand_fict lst_indices_reduce_fict
    by blast
qed

section \<open>The invariant: access and arithmetic\<close>

lemma is_pow2_pow2: "is_pow2 c \<Longrightarrow> pow2 c"
proof (induction c rule: is_pow2.induct)
  case (1 c)
  show ?case
  proof (cases "c \<le> 1")
    case True
    then have "c = 1" using 1(2) by (simp add: is_pow2.simps[of c])
    then have "c = 2 ^ (0::nat)" by simp
    then show ?thesis unfolding pow2_def by blast
  next
    case False
    then have e: "even c" and h: "is_pow2 (c div 2)" using 1(2) by (simp_all add: is_pow2.simps[of c])
    from 1(1)[OF False h] obtain k :: nat where "c div 2 = 2 ^ k" unfolding pow2_def by blast
    then have "c = 2 ^ Suc k" using e by auto
    then show ?thesis unfolding pow2_def by blast
  qed
qed

lemma is_pow2_double: "is_pow2 c \<Longrightarrow> is_pow2 (2 * c)"
proof -
  assume a: "is_pow2 c"
  then have "0 < c" using is_pow2_pow2 pow2_pos by blast
  then show ?thesis using a by (simp add: is_pow2.simps[of "2 * c"])
qed


lemma lst_invD:
  assumes "lst_inv st"
  shows "is_pow2 (capacity st)" "1 \<le> depth (s st)" "0 \<le> idx st" "idx st < capacity st"
    "0 \<le> num_elements st" "num_elements st \<le> capacity st"
    "stack_item (s st) 0 = idx st + num_elements st"
    "\<And>k. 1 \<le> k \<Longrightarrow> k < depth (s st) \<Longrightarrow> stack_item (s st) k < stack_item (s st) (k - 1)"
    "idx st \<le> stack_item (s st) (depth (s st) - 1)"
    "\<And>i. idx st \<le> i \<Longrightarrow> i < idx st + num_elements st \<Longrightarrow>
        hnd st (item st i) = index_reduce st i"
    "\<And>k i. 1 \<le> k \<Longrightarrow> k < depth (s st) \<Longrightarrow> idx st \<le> i \<Longrightarrow>
        i < idx st + num_elements st \<Longrightarrow> i < stack_item (s st) k \<Longrightarrow>
        cmp st (item st i) (pivot_item st k) \<le> 0"
    "\<And>k i. 1 \<le> k \<Longrightarrow> k < depth (s st) \<Longrightarrow> idx st \<le> i \<Longrightarrow>
        i < idx st + num_elements st \<Longrightarrow> stack_item (s st) k < i \<Longrightarrow>
        0 \<le> cmp st (item st i) (pivot_item st k)"
  using assms unfolding lst_inv_def item_index_def by auto

lemma lst_inv_pow2: "lst_inv st \<Longrightarrow> pow2 (capacity st)"
  by (simp add: lst_inv_def is_pow2_pow2)

lemma lst_inv_reduce: "lst_inv st \<Longrightarrow> index_reduce st i = i mod capacity st"
  by (simp add: lst_inv_pow2 index_reduce_mod)

lemma lst_inv_item_inj:
  assumes "lst_inv st" "idx st \<le> i" "i < idx st + num_elements st"
    "idx st \<le> j" "j < idx st + num_elements st" "item st i = item st j"
  shows "i = j"
proof -
  have "hnd st (item st i) = index_reduce st i"
    using lst_invD(10)[OF assms(1), of i] assms by simp
  moreover have "hnd st (item st j) = index_reduce st j"
    using lst_invD(10)[OF assms(1), of j] assms by simp
  ultimately have "i mod capacity st = j mod capacity st"
    using assms(1,6) by (simp add: lst_inv_reduce)
  moreover have "num_elements st \<le> capacity st" using lst_invD(6)[OF assms(1)] .
  ultimately show ?thesis
    using mod_window_eq[of i "capacity st" j "idx st"] assms by linarith
qed

lemma iter_rest_eq:
  "iter_rest st j = map (item st) [j + 1..stack_item (s st) 0 - 1]"
proof (induction st j rule: iter_rest.induct)
  case (1 st iter)
  show ?case
  proof (cases "iter + 1 \<ge> stack_item (s st) 0")
    case True
    then show ?thesis by (simp add: iter_rest.simps[of st iter] lst_iter_next_def)
  next
    case False
    then have "iter_rest st iter = item st (iter + 1) # iter_rest st (iter + 1)"
      by (simp add: iter_rest.simps[of st iter] lst_iter_next_def)
    also have "iter_rest st (iter + 1) = map (item st) [iter + 1 + 1..stack_item (s st) 0 - 1]"
      using 1 False by (simp add: lst_iter_next_def)
    finally show ?thesis using False by (simp add: upto_rec1[of "iter + 1"])
  qed
qed

lemma iterate_eq:
  assumes "stack_item (s st) 0 = idx st + num_elements st" "0 \<le> num_elements st"
  shows "iterate st it0 = map (item st) [idx st..idx st + num_elements st - 1]"
proof (cases "num_elements st = 0")
  case True
  then show ?thesis by (simp add: iterate_def lst_iter_init_def)
next
  case False
  then have "iterate st it0 = item st (idx st) # iter_rest st (idx st)"
    by (simp add: iterate_def lst_iter_init_def)
  then show ?thesis using assms False
    by (simp add: iter_rest_eq upto_rec1[of "idx st"])
qed


subsection \<open>Facts about the example states\<close>

lemma cmp_ok_ex: "cmp_ok ex_cmp"
  by (auto simp: cmp_ok_def ex_cmp_def)

lemma int_range3: "{0..<3::int} = {0, 1, 2}"
  by auto

lemma ex3_fields:
  "capacity ex3 = 2048" "idx ex3 = 0" "num_elements ex3 = 3" "depth (s ex3) = 1"
  "stack_item (s ex3) 0 = 3" "item ex3 0 = 5" "item ex3 1 = 3" "item ex3 2 = 7"
  "hnd ex3 5 = 0" "hnd ex3 3 = 1" "hnd ex3 7 = 2"
  "index_reduce ex3 0 = 0" "index_reduce ex3 1 = 1" "index_reduce ex3 2 = 2"
  by code_simp+

lemma is_pow2_2048: "is_pow2 2048"
  by code_simp

lemma ex3_inv: "lst_inv ex3"
  unfolding lst_inv_def
  by (simp add: ex3_fields is_pow2_2048 int_range3 item_index_def)

theorem fictitious_pivot_witness:
  "u_lst_alloc ex_cmp 0 (\<lambda>_. 0) (\<lambda>_. 0) True = Some ex_init \<and> fict_inv ex_init \<and>
   map_option fst (lst_insert ex_init 5) = Some 1 \<and>
   fict_inv (snd (the (lst_insert ex_init 5)))"
proof -
  have a: "u_lst_alloc ex_cmp 0 (\<lambda>_. 0) (\<lambda>_. 0) True = Some ex_init"
    by (simp add: ex_init_def u_lst_alloc_def)
  have b: "map_option fst (lst_insert ex_init 5) = Some 1" by code_simp
  then obtain st' where c: "lst_insert ex_init 5 = Some (1, st')"
    by (cases "lst_insert ex_init 5") auto
  note t = fictitious_pivot_exact[of ex_cmp 0 "\<lambda>_. 0" "\<lambda>_. 0" True ex_init ex_init 5]
  from t a have i: "fict_inv ex_init" by blast
  with t c have "fict_inv st'" by blast
  then show ?thesis using a b c i by simp
qed

section \<open>Claim C5: a rejected insertion\<close>

text \<open>
  C5 (as amended). When \<open>lst_insert\<close> returns failure, the state it leaves is the state
  before the call if \<open>num_elements\<close> differs from \<open>capacity\<close>; if they are equal, the
  array was expanded before the check for a resident record, and the state is the one
  \<open>lst_expand\<close> left (unchanged only if the allocation failed).
\<close>

theorem insert_rejected_state:
  assumes "lst_insert st d = Some (- 1, st')"
  shows "(num_elements st \<noteq> capacity st \<longrightarrow> st' = st) \<and>
         (num_elements st = capacity st \<longrightarrow> st' = snd (lst_expand st))"
  using assms
  by (auto simp: lst_insert_def Let_def split: if_splits prod.splits)

theorem insert_rejected_state_witness:
  "num_elements ex3 \<noteq> capacity ex3 \<and> item_index ex3 3 = 1 \<and> lst_insert ex3 3 = Some (- 1, ex3)"
proof -
  have n: "num_elements ex3 \<noteq> capacity ex3" by (simp add: ex3_fields)
  have "map_option fst (lst_insert ex3 3) = Some (- 1)" by code_simp
  then obtain st' where c: "lst_insert ex3 3 = Some (- 1, st')"
    by (cases "lst_insert ex3 3") auto
  from insert_rejected_state[OF c] n have "st' = ex3" by blast
  then show ?thesis using n c by (simp add: item_index_def ex3_fields)
qed

text \<open>
  The claim as stated fails on a full LST: the insertion of the resident record 7 is
  rejected, the allocator works, and the capacity has doubled.
\<close>

theorem insert_rejected_changes_full:
  "mem_ok ex_full \<and> num_elements ex_full = capacity ex_full \<and> 0 < item_index ex_full 7 \<and>
   map_option fst (lst_insert ex_full 7) = Some (- 1) \<and>
   capacity ex_full = 2048 \<and> capacity (snd (the (lst_insert ex_full 7))) = 4096"
  by (intro conjI; code_simp)

section \<open>Claim C9: the iterator\<close>

text \<open>
  C9. In a state that satisfies the invariants: \<open>lst_iter_init\<close> returns NULL on an
  empty LST and otherwise sets the iterator to \<open>idx\<close> and returns the record there; each
  \<open>lst_iter_next\<close> whose next position is below \<open>s[0]\<close> advances the iterator by one
  and returns the record at the new position, and any other returns NULL and leaves the
  iterator; so a whole iteration returns the records at \<open>idx, ..., idx + n - 1\<close> in this
  order, \<open>n\<close> records, no record twice, and they are the resident records.
\<close>

theorem iterator_visits_each_once:
  assumes "lst_inv st"
  shows "(num_elements st = 0 \<longrightarrow> lst_iter_init st it0 = (None, it0)) \<and>
         (num_elements st \<noteq> 0 \<longrightarrow> lst_iter_init st it0 = (Some (item st (idx st)), idx st)) \<and>
         (\<forall>j. j + 1 < stack_item (s st) 0 \<longrightarrow>
              lst_iter_next st j = (Some (item st (j + 1)), j + 1)) \<and>
         (\<forall>j. stack_item (s st) 0 \<le> j + 1 \<longrightarrow> lst_iter_next st j = (None, j)) \<and>
         stack_item (s st) 0 = idx st + num_elements st \<and>
         iterate st it0 = map (item st) [idx st..idx st + num_elements st - 1] \<and>
         length (iterate st it0) = nat (num_elements st) \<and>
         distinct (iterate st it0) \<and>
         set (iterate st it0) = resident st"
proof -
  have s0: "stack_item (s st) 0 = idx st + num_elements st" and n0: "0 \<le> num_elements st"
    using lst_invD[OF assms] by simp_all
  have it: "iterate st it0 = map (item st) [idx st..idx st + num_elements st - 1]"
    using iterate_eq[OF s0 n0] .
  have inj: "inj_on (item st) {idx st..idx st + num_elements st - 1}"
    using lst_inv_item_inj[OF assms] by (auto simp: inj_on_def)
  have d: "distinct (iterate st it0)"
    unfolding it using inj by (simp add: distinct_map)
  have r: "set (iterate st it0) = resident st"
    unfolding it resident_def by (simp add: atLeastLessThan_def atLeastAtMost_def lessThan_def atMost_def)
  show ?thesis using s0 it d r n0
    by (simp add: lst_iter_init_def lst_iter_next_def)
qed

theorem iterator_witness:
  "lst_inv ex3 \<and> num_elements ex3 \<noteq> 0 \<and>
   lst_iter_init ex3 0 = (Some (item ex3 (idx ex3)), idx ex3) \<and>
   iterate ex3 0 = [5, 3, 7] \<and> distinct (iterate ex3 0) \<and> set (iterate ex3 0) = resident ex3"
proof -
  have h: "lst_inv ex3" by (rule ex3_inv)
  have n: "num_elements ex3 \<noteq> 0" by code_simp
  have i: "iterate ex3 0 = [5, 3, 7]" by code_simp
  from iterator_visits_each_once[OF h, of 0] n
  have "lst_iter_init ex3 0 = (Some (item ex3 (idx ex3)), idx ex3)"
    "distinct (iterate ex3 0)" "set (iterate ex3 0) = resident ex3"
    by blast+
  then show ?thesis using h n i by blast
qed

section \<open>Claim C8: the expansion\<close>

lemma lst_inv_cap_pos: "lst_inv st \<Longrightarrow> 0 < capacity st"
  using lst_inv_pow2 pow2_pos by blast

lemma item_mod: "pow2 (capacity st) \<Longrightarrow> item st i = p st (i mod capacity st)"
  by (simp add: item_def index_reduce_mod)

lemma full_slots:
  assumes inv: "lst_inv st" and full: "num_elements st = capacity st"
    and j: "0 \<le> j" "j < capacity st"
  shows "hnd st (p st j) = j"
proof -
  define i where "i = (if idx st \<le> j then j else j + capacity st)"
  have r: "idx st \<le> i" "i < idx st + num_elements st"
    using j lst_invD(3,4)[OF inv] full by (auto simp: i_def)
  have m: "i mod capacity st = j" using j by (auto simp: i_def)
  have "hnd st (item st i) = index_reduce st i" using lst_invD(10)[OF inv r] .
  then show ?thesis using m by (simp add: item_mod lst_inv_pow2[OF inv] lst_inv_reduce[OF inv])
qed

lemma expanding_step:
  assumes inv: "lst_inv st" and full: "num_elements st = capacity st"
    and e: "expanding st st1 i" and i: "0 \<le> i" "i < idx st"
  shows "expanding st (expand_step st1 (capacity st) i) (i + 1)"
proof -
  let ?C = "capacity st"
  have e1: "capacity st1 = 2 * ?C" and e2: "idx st1 = idx st"
    and e3: "\<And>j. 0 \<le> j \<Longrightarrow> j < ?C \<Longrightarrow> p st1 j = p st j"
    and e4: "\<And>j. 0 \<le> j \<Longrightarrow> j < i \<Longrightarrow> p st1 (j + ?C) = p st j"
    and e5: "\<And>y. hnd st1 y = (if y \<in> p st ` {0..<i} then hnd st y + ?C else hnd st y)"
    using e unfolding expanding_def by blast+
  have C: "0 < ?C" using lst_inv_cap_pos[OF inv] .
  have p2: "pow2 (capacity st1)" using lst_inv_pow2[OF inv] pow2_double e1 by simp
  have iC: "i < ?C" using i lst_invD(4)[OF inv] by simp
  have it: "item st1 i = p st i"
    using e3[OF i(1) iC] i iC by (simp add: item_mod[OF p2] e1)
  have notin: "p st i \<notin> p st ` {0..<i}"
  proof
    assume "p st i \<in> p st ` {0..<i}"
    then obtain j where j: "0 \<le> j" "j < i" "p st i = p st j" by auto
    have "hnd st (p st j) = j" using full_slots[OF inv full j(1)] j(2) iC by simp
    moreover have "hnd st (p st i) = i" using full_slots[OF inv full i(1) iC] .
    ultimately show False using j by simp
  qed
  have h: "hnd st1 (p st i) = i"
    using notin full_slots[OF inv full i(1) iC] by (simp add: e5)
  have red: "index_reduce st1 (i + ?C) = i + ?C"
    using i iC by (simp add: index_reduce_mod[OF p2] e1)
  have st2: "expand_step st1 ?C i = lst_move st1 (i + ?C) (p st i)"
    by (simp add: expand_step_def Let_def it item_index_def h)
  have img: "p st ` {0..<i + 1} = insert (p st i) (p st ` {0..<i})"
  proof -
    have "{0..<i + 1} = insert i {0..<i}" using i by auto
    then show ?thesis by simp
  qed
  have a: "capacity (lst_move st1 (i + ?C) (p st i)) = 2 * ?C" using e1 by simp
  have b: "idx (lst_move st1 (i + ?C) (p st i)) = idx st" using e2 by simp
  have c: "p (lst_move st1 (i + ?C) (p st i)) j = p st j" if "0 \<le> j \<and> j < ?C" for j
    using that e3[of j] i by (auto simp: lst_move_def red)
  have d: "p (lst_move st1 (i + ?C) (p st i)) (j + ?C) = p st j" if "0 \<le> j \<and> j < i + 1" for j
  proof (cases "j = i")
    case True
    then show ?thesis by (simp add: lst_move_def red)
  next
    case False
    then have "j < i" using that by simp
    then show ?thesis using that e4[of j] False by (simp add: lst_move_def red)
  qed
  have f: "hnd (lst_move st1 (i + ?C) (p st i)) y =
           (if y \<in> p st ` {0..<i + 1} then hnd st y + ?C else hnd st y)" for y
  proof (cases "y = p st i")
    case True
    then show ?thesis using full_slots[OF inv full i(1) iC] by (simp add: lst_move_def red img)
  next
    case False
    then show ?thesis by (simp add: lst_move_def img e5)
  qed
  show ?thesis
    unfolding expanding_def st2 using a b c d f by blast
qed

lemma expanding_loop:
  assumes inv: "lst_inv st" and full: "num_elements st = capacity st"
  shows "expanding st st1 i \<Longrightarrow> 0 \<le> i \<Longrightarrow> i \<le> idx st \<Longrightarrow>
         expanding st (expand_loop st1 (capacity st) i) (idx st)"
proof (induction "nat (idx st - i)" arbitrary: st1 i)
  case 0
  then have "i = idx st" by simp
  moreover have "idx st1 = idx st" using 0 by (simp add: expanding_def)
  ultimately show ?case using 0 by (simp add: expand_loop.simps[of st1])
next
  case (Suc m)
  then have lt: "i < idx st" by linarith
  have i1: "idx st1 = idx st" using Suc by (simp add: expanding_def)
  have "expanding st (expand_step st1 (capacity st) i) (i + 1)"
    using expanding_step[OF inv full Suc(3) Suc(4) lt] .
  then have "expanding st (expand_loop (expand_step st1 (capacity st) i) (capacity st) (i + 1)) (idx st)"
    using Suc(1)[of "i + 1" "expand_step st1 (capacity st) i"] Suc(2) Suc(4) lt by simp
  then show ?case using lt i1 by (simp add: expand_loop.simps[of st1 "capacity st" i])
qed

lemma lst_invI:
  assumes "is_pow2 (capacity st)" "1 \<le> depth (s st)" "0 \<le> idx st" "idx st < capacity st"
    "0 \<le> num_elements st" "num_elements st \<le> capacity st"
    "stack_item (s st) 0 = idx st + num_elements st"
    "\<And>k. 1 \<le> k \<Longrightarrow> k < depth (s st) \<Longrightarrow> stack_item (s st) k < stack_item (s st) (k - 1)"
    "idx st \<le> stack_item (s st) (depth (s st) - 1)"
    "\<And>i. idx st \<le> i \<Longrightarrow> i < idx st + num_elements st \<Longrightarrow>
        hnd st (item st i) = index_reduce st i"
    "\<And>k i. 1 \<le> k \<Longrightarrow> k < depth (s st) \<Longrightarrow> idx st \<le> i \<Longrightarrow>
        i < idx st + num_elements st \<Longrightarrow> i < stack_item (s st) k \<Longrightarrow>
        cmp st (item st i) (pivot_item st k) \<le> 0"
    "\<And>k i. 1 \<le> k \<Longrightarrow> k < depth (s st) \<Longrightarrow> idx st \<le> i \<Longrightarrow>
        i < idx st + num_elements st \<Longrightarrow> stack_item (s st) k < i \<Longrightarrow>
        0 \<le> cmp st (item st i) (pivot_item st k)"
  shows "lst_inv st"
  unfolding lst_inv_def item_index_def using assms by auto

lemma stack_decreasing:
  assumes "lst_inv st"
  shows "j \<le> k \<Longrightarrow> k < depth (s st) \<Longrightarrow> stack_item (s st) k \<le> stack_item (s st) j"
proof (induction k)
  case 0
  then show ?case by simp
next
  case (Suc k)
  show ?case
  proof (cases "j = Suc k")
    case True
    then show ?thesis by simp
  next
    case False
    then have "stack_item (s st) k \<le> stack_item (s st) j" using Suc by simp
    moreover have "stack_item (s st) (Suc k) < stack_item (s st) k"
      using lst_invD(8)[OF assms, of "Suc k"] Suc(3) by simp
    ultimately show ?thesis by simp
  qed
qed

lemma stack_strict:
  assumes "lst_inv st" "j < k" "k < depth (s st)"
  shows "stack_item (s st) k < stack_item (s st) j"
proof -
  have "stack_item (s st) k < stack_item (s st) (k - 1)"
    using lst_invD(8)[OF assms(1), of k] assms by simp
  moreover have "stack_item (s st) (k - 1) \<le> stack_item (s st) j"
    using stack_decreasing[OF assms(1), of j "k - 1"] assms by simp
  ultimately show ?thesis by simp
qed

lemma stack_lower:
  assumes "lst_inv st" "k < depth (s st)"
  shows "idx st \<le> stack_item (s st) k"
proof -
  have "k \<le> depth (s st) - 1" "depth (s st) - 1 < depth (s st)" using assms(2) by simp_all
  from stack_decreasing[OF assms(1) this] lst_invD(9)[OF assms(1)] show ?thesis by simp
qed

lemma pivot_in_range:
  assumes "lst_inv st" "1 \<le> k" "k < depth (s st)"
  shows "idx st \<le> stack_item (s st) k" "stack_item (s st) k < idx st + num_elements st"
  using stack_lower[OF assms(1,3)] stack_strict[OF assms(1), of 0 k] assms lst_invD(7)[OF assms(1)]
  by simp_all

text \<open>
  A state with the same logical contents, possibly with all logical indices shifted and
  with another capacity, satisfies the invariants as well.
\<close>

lemma lst_inv_transfer:
  assumes inv: "lst_inv st"
    and cap: "is_pow2 (capacity st')" "num_elements st \<le> capacity st'"
    and ix: "idx st' = idx st + dl" "0 \<le> idx st'" "idx st' < capacity st'"
    and n: "num_elements st' = num_elements st"
    and dp: "depth (s st') = depth (s st)"
    and stk: "\<And>k. k < depth (s st) \<Longrightarrow> stack_item (s st') k = stack_item (s st) k + dl"
    and c: "cmp st' = cmp st"
    and it: "\<And>i. idx st \<le> i \<Longrightarrow> i < idx st + num_elements st \<Longrightarrow>
               item st' (i + dl) = item st i"
    and h: "\<And>i. idx st \<le> i \<Longrightarrow> i < idx st + num_elements st \<Longrightarrow>
               hnd st' (item st i) = index_reduce st' (i + dl)"
  shows "lst_inv st'"
proof (rule lst_invI)
  note d = lst_invD[OF inv]
  show "is_pow2 (capacity st')" by fact
  show "1 \<le> depth (s st')" using d(2) dp by simp
  show "0 \<le> idx st'" by fact
  show "idx st' < capacity st'" by fact
  show "0 \<le> num_elements st'" using d(5) n by simp
  show "num_elements st' \<le> capacity st'" using cap n by simp
  show "stack_item (s st') 0 = idx st' + num_elements st'"
    using stk[of 0] d(2,7) ix n by simp
  show "stack_item (s st') k < stack_item (s st') (k - 1)" if "1 \<le> k" "k < depth (s st')" for k
    using that d(8)[of k] stk[of k] stk[of "k - 1"] dp by simp
  show "idx st' \<le> stack_item (s st') (depth (s st') - 1)"
    using d(2,9) stk[of "depth (s st) - 1"] dp ix by simp
  show "hnd st' (item st' i) = index_reduce st' i"
    if "idx st' \<le> i" "i < idx st' + num_elements st'" for i
    using that it[of "i - dl"] h[of "i - dl"] ix n by simp
  have pv: "pivot_item st' k = pivot_item st k" if "1 \<le> k" "k < depth (s st')" for k
    using that pivot_in_range[OF inv, of k] it[of "stack_item (s st) k"] stk[of k] dp
    by (simp add: pivot_item_def)
  show "cmp st' (item st' i) (pivot_item st' k) \<le> 0"
    if "1 \<le> k" "k < depth (s st')" "idx st' \<le> i" "i < idx st' + num_elements st'"
      "i < stack_item (s st') k" for k i
    using that d(11)[of k "i - dl"] it[of "i - dl"] pv[of k] stk[of k] ix n dp c by simp
  show "0 \<le> cmp st' (item st' i) (pivot_item st' k)"
    if "1 \<le> k" "k < depth (s st')" "idx st' \<le> i" "i < idx st' + num_elements st'"
      "stack_item (s st') k < i" for k i
    using that d(12)[of k "i - dl"] it[of "i - dl"] pv[of k] stk[of k] ix n dp c by simp
qed

lemma resident_transfer:
  assumes "idx st' = idx st + dl" "num_elements st' = num_elements st"
    "\<And>i. idx st \<le> i \<Longrightarrow> i < idx st + num_elements st \<Longrightarrow> item st' (i + dl) = item st i"
  shows "resident st' = resident st"
proof -
  have e: "{idx st + dl..<idx st + dl + num_elements st} =
        (\<lambda>i. i + dl) ` {idx st..<idx st + num_elements st}"
    using image_add_atLeastLessThan'[of dl "idx st" "idx st + num_elements st"]
    by (simp add: ac_simps)
  have "item st' ` {idx st + dl..<idx st + dl + num_elements st} =
        (\<lambda>i. item st' (i + dl)) ` {idx st..<idx st + num_elements st}"
    unfolding e by (simp only: image_image)
  also have "\<dots> = item st ` {idx st..<idx st + num_elements st}"
    using assms(3) by (intro image_cong) auto
  finally show ?thesis using assms(1,2) by (simp add: resident_def)
qed

lemma lst_indices_reduce_fields [simp]:
  "capacity (lst_indices_reduce st) = capacity st"
  "idx (lst_indices_reduce st) = index_reduce st (idx st)"
  "num_elements (lst_indices_reduce st) = num_elements st"
  "cmp (lst_indices_reduce st) = cmp st"
  "rnd (lst_indices_reduce st) = rnd st"
  "mem_ok (lst_indices_reduce st) = mem_ok st"
  "p (lst_indices_reduce st) = p st"
  "hnd (lst_indices_reduce st) = hnd st"
  "depth (s (lst_indices_reduce st)) = depth (s st)"
  "size_s (s (lst_indices_reduce st)) = size_s (s st)"
  "stack_item (s (lst_indices_reduce st)) j =
     (if j < depth (s st) then index_reduce st (idx st) + stack_item (s st) j - idx st
      else stack_item (s st) j)"
  by (simp_all add: lst_indices_reduce_def Let_def stack_depth_def reduce_loop_item)

lemma index_reduce_indices_reduce [simp]:
  "index_reduce (lst_indices_reduce st) i = index_reduce st i"
  by (simp add: index_reduce_def)

lemma item_indices_reduce [simp]: "item (lst_indices_reduce st) i = item st i"
  by (simp add: item_def)

lemma mod_second_window:
  fixes i c :: int
  assumes "c \<le> i" "i < 2 * c"
  shows "i mod c = i - c"
proof -
  have "(i - c) mod c = i mod c" by simp
  moreover have "(i - c) mod c = i - c" using assms by (intro mod_pos_pos_trivial) auto
  ultimately show ?thesis by simp
qed

lemma c_int_id: "- (2 ^ 31) \<le> x \<Longrightarrow> x < 2 ^ 31 \<Longrightarrow> c_int x = x"
  by (simp add: c_int_def)

lemma c_size_t_id: "0 \<le> x \<Longrightarrow> x < 2 ^ 64 \<Longrightarrow> c_size_t x = x"
  by (simp add: c_size_t_def)

text \<open>A capacity that is a value of \<open>int\<close> is \<open>2 ^ 30\<close>, or its double is at most \<open>2 ^ 30\<close>.\<close>

lemma pow2_int_max:
  assumes "pow2 c" "c \<le> INT_MAX"
  shows "c = 2 ^ 30 \<or> 2 * c \<le> 2 ^ 30"
proof -
  from assms(1) obtain k :: nat where k: "c = 2 ^ k" unfolding pow2_def by blast
  have "(2::int) ^ k < 2 ^ 31" using assms(2) k by (simp add: INT_MAX_def)
  then have "k < 31" by (simp only: power_strict_increasing_iff[of "2::int"] one_less_numeral_iff semiring_norm)
  then consider "k = 30" | "k + 1 \<le> 30" by fastforce
  then show ?thesis
  proof cases
    case 1
    then show ?thesis using k by simp
  next
    case 2
    then have "(2::int) ^ (k + 1) \<le> 2 ^ 30" by (intro power_increasing) simp_all
    then show ?thesis using k by simp
  qed
qed

lemma lst_inv_double:
  assumes "lst_inv st" "capacity st < 2 ^ 30"
  shows "2 * capacity st \<le> 2 ^ 30"
  using pow2_int_max[OF lst_inv_pow2[OF assms(1)]] assms(2) by (simp add: INT_MAX_def)

text \<open>
  What \<open>lst_expand\<close> computes: below \<open>2 ^ 30\<close> nothing wraps around and the request is
  granted if there is memory; at \<open>2 ^ 30\<close> the product is \<open>- 2 ^ 31\<close> as an \<open>int\<close>, the
  request is for \<open>2 ^ 64 - 2 ^ 34\<close> bytes and fails.
\<close>

lemma expand_small:
  assumes "0 < capacity st" "2 * capacity st \<le> 2 ^ 30" "mem_ok st"
  shows "lst_expand st =
           (True, expand_loop (lst_indices_reduce (st\<lparr>capacity := 2 * capacity st\<rparr>)) (capacity st) 0)"
proof -
  have a: "c_int (2 * capacity st) = 2 * capacity st" using assms(1,2) by (intro c_int_id) simp_all
  have b: "c_size_t (2 * capacity st) = 2 * capacity st"
    using assms(1,2) by (intro c_size_t_id) simp_all
  have c: "c_size_t (16 * capacity st) = 16 * capacity st"
    using assms(1,2) by (intro c_size_t_id) simp_all
  have "realloc_ok st (16 * capacity st)"
    using assms by (simp add: realloc_ok_def PTRDIFF_MAX_def)
  then show ?thesis by (simp add: lst_expand_def Let_def a b c)
qed

lemma expand_big:
  assumes "capacity st = 2 ^ 30"
  shows "lst_expand st = (False, st)"
  using assms
  by (simp add: lst_expand_def Let_def c_int_def c_size_t_def realloc_ok_def PTRDIFF_MAX_def)

lemma expand_no_memory: "\<not> mem_ok st \<Longrightarrow> lst_expand st = (False, st)"
  by (simp add: lst_expand_def Let_def realloc_ok_def)

lemma expand_start:
  assumes inv: "lst_inv st"
  shows "expanding st (lst_indices_reduce (st\<lparr>capacity := 2 * capacity st\<rparr>)) 0"
proof -
  have p2: "pow2 (2 * capacity st)" using lst_inv_pow2[OF inv] pow2_double by simp
  have "index_reduce (st\<lparr>capacity := 2 * capacity st\<rparr>) (idx st) = idx st"
    using lst_invD(3,4)[OF inv] index_reduce_mod[of "st\<lparr>capacity := 2 * capacity st\<rparr>"] p2
    by simp
  then show ?thesis by (simp add: expanding_def)
qed

lemma expand_expanding:
  assumes inv: "lst_inv st" and full: "num_elements st = capacity st" and mem: "mem_ok st"
    and cap: "capacity st < 2 ^ 30"
  shows "lst_expand st =
           (True, expand_loop (lst_indices_reduce (st\<lparr>capacity := 2 * capacity st\<rparr>)) (capacity st) 0)"
    "expanding st (snd (lst_expand st)) (idx st)"
proof -
  show a: "lst_expand st =
           (True, expand_loop (lst_indices_reduce (st\<lparr>capacity := 2 * capacity st\<rparr>)) (capacity st) 0)"
    by (rule expand_small[OF lst_inv_cap_pos[OF inv] lst_inv_double[OF inv cap] mem])
  show "expanding st (snd (lst_expand st)) (idx st)"
    unfolding a using expanding_loop[OF inv full expand_start[OF inv]] lst_invD(3)[OF inv]
    by simp
qed

lemma lst_expand_full:
  assumes inv: "lst_inv st" and full: "num_elements st = capacity st" and mem: "mem_ok st"
    and cap: "capacity st < 2 ^ 30"
  shows "fst (lst_expand st) \<and>
         capacity (snd (lst_expand st)) = 2 * capacity st \<and>
         idx (snd (lst_expand st)) = idx st \<and>
         num_elements (snd (lst_expand st)) = num_elements st \<and>
         lst_inv (snd (lst_expand st)) \<and>
         resident (snd (lst_expand st)) = resident st \<and>
         (\<forall>i \<in> {idx st..<idx st + num_elements st}.
            item (snd (lst_expand st)) i = item st i \<and>
            item_index (snd (lst_expand st)) (item st i) = index_reduce (snd (lst_expand st)) i) \<and>
         cmp (snd (lst_expand st)) = cmp st \<and> mem_ok (snd (lst_expand st)) = mem_ok st \<and>
         (\<forall>y. y \<notin> resident st \<longrightarrow> hnd (snd (lst_expand st)) y = hnd st y)"
proof -
  let ?C = "capacity st"
  define stB where "stB = lst_indices_reduce (st\<lparr>capacity := 2 * ?C\<rparr>)"
  define st' where "st' = expand_loop stB ?C 0"
  have ex: "lst_expand st = (True, st')"
    using expand_expanding(1)[OF inv full mem cap] by (simp add: st'_def stB_def)
  note d = lst_invD[OF inv]
  have C: "0 < ?C" using lst_inv_cap_pos[OF inv] .
  have e: "expanding st st' (idx st)"
    using expand_expanding(2)[OF inv full mem cap] ex by simp
  have e1: "capacity st' = 2 * ?C" and e2: "idx st' = idx st"
    and e3: "\<And>j. 0 \<le> j \<Longrightarrow> j < ?C \<Longrightarrow> p st' j = p st j"
    and e4: "\<And>j. 0 \<le> j \<Longrightarrow> j < idx st \<Longrightarrow> p st' (j + ?C) = p st j"
    and e5: "\<And>y. hnd st' y = (if y \<in> p st ` {0..<idx st} then hnd st y + ?C else hnd st y)"
    using e unfolding expanding_def by blast+
  have p2: "pow2 (capacity st')" using lst_inv_pow2[OF inv] pow2_double e1 by simp
  have p1: "pow2 ?C" using lst_inv_pow2[OF inv] .
  have red: "index_reduce st' i = i" if "idx st \<le> i" "i < idx st + num_elements st" for i
    using that d(3,4) full by (simp add: index_reduce_mod[OF p2] e1)
  have stkB: "stack_item (s stB) k = stack_item (s st) k" if "k < depth (s st)" for k
    using that d(3,4) index_reduce_mod[of "st\<lparr>capacity := 2 * ?C\<rparr>"] p2 e1
    by (simp add: stB_def)
  have f: "num_elements st' = num_elements st" "cmp st' = cmp st" "depth (s st') = depth (s st)"
    "\<And>k. k < depth (s st) \<Longrightarrow> stack_item (s st') k = stack_item (s st) k"
    using stkB by (simp_all add: st'_def stB_def)
  have it: "item st' i = item st i" if "idx st \<le> i" "i < idx st + num_elements st" for i
  proof (cases "i < ?C")
    case True
    then show ?thesis using that d(3) e3[of i]
      by (simp add: item_def red[OF that] index_reduce_mod[OF p1])
  next
    case False
    then have m: "i mod ?C = i - ?C" using that full d(4)
      by (intro mod_second_window) auto
    have "p st' (i - ?C + ?C) = p st (i - ?C)" using e4[of "i - ?C"] False that full by simp
    then show ?thesis
      by (simp add: item_def red[OF that] index_reduce_mod[OF p1] m)
  qed
  have hn: "hnd st' (item st i) = index_reduce st' i"
    if "idx st \<le> i" "i < idx st + num_elements st" for i
  proof (cases "i < ?C")
    case True
    have i0: "0 \<le> i" using that d(3) by simp
    have pi: "item st i = p st i" using True i0 by (simp add: item_def index_reduce_mod[OF p1])
    have "p st i \<notin> p st ` {0..<idx st}"
    proof
      assume "p st i \<in> p st ` {0..<idx st}"
      then obtain j where j: "0 \<le> j" "j < idx st" "p st i = p st j" by auto
      have "hnd st (p st j) = j" using full_slots[OF inv full j(1)] j(2) d(4) by simp
      moreover have "hnd st (p st i) = i" using full_slots[OF inv full i0 True] .
      ultimately show False using j that by simp
    qed
    then show ?thesis using full_slots[OF inv full i0 True] by (simp add: e5 pi red[OF that])
  next
    case False
    then have m: "i mod ?C = i - ?C" using that full d(4)
      by (intro mod_second_window) auto
    have j: "0 \<le> i - ?C" "i - ?C < idx st" using False that full by simp_all
    have pi: "item st i = p st (i - ?C)" by (simp add: item_def index_reduce_mod[OF p1] m)
    have "p st (i - ?C) \<in> p st ` {0..<idx st}" using j by simp
    moreover have "hnd st (p st (i - ?C)) = i - ?C"
      using full_slots[OF inv full j(1)] j(2) d(4) by simp
    ultimately show ?thesis by (simp add: e5 pi red[OF that])
  qed
  have inv': "lst_inv st'"
  proof (rule lst_inv_transfer[OF inv, where dl = 0])
    show "is_pow2 (capacity st')" using d(1) is_pow2_double e1 by simp
    show "num_elements st \<le> capacity st'" using d(6) e1 C by simp
    show "idx st' = idx st + 0" using e2 by simp
    show "0 \<le> idx st'" using d(3) e2 by simp
    show "idx st' < capacity st'" using d(4) e1 e2 C by simp
  qed (use f it hn in simp_all)
  have res: "resident st' = resident st"
    by (rule resident_transfer[where dl = 0]) (use e2 f it in simp_all)
  have mo: "mem_ok st' = mem_ok st" by (simp add: st'_def stB_def)
  have fr: "hnd st' y = hnd st y" if "y \<notin> resident st" for y
  proof -
    have "y \<notin> p st ` {0..<idx st}"
    proof
      assume "y \<in> p st ` {0..<idx st}"
      then obtain j where j: "0 \<le> j" "j < idx st" "y = p st j" by auto
      have "item st (j + ?C) = p st j" using j d(4) by (simp add: item_mod[OF p1])
      moreover have "j + ?C \<in> {idx st..<idx st + num_elements st}" using j d(4) full by simp
      ultimately show False using that j(3) unfolding resident_def by (metis imageI)
    qed
    then show ?thesis by (simp add: e5)
  qed
  show ?thesis
    unfolding ex using e1 e2 f(1,2) inv' res it hn mo fr by (simp add: item_index_def)
qed

lemma is_pow2_big: "is_pow2 1073741824"
  by code_simp

lemma ex_big_inv: "lst_inv ex_big"
proof (rule lst_invI)
  show "hnd ex_big (item ex_big i) = index_reduce ex_big i" for i
  proof -
    have "0 \<le> i AND (2 ^ 30 - 1)" by simp
    then show ?thesis by (simp add: item_def index_reduce_def ex_big_def)
  qed
qed (simp_all add: ex_big_def is_pow2_big stack_item_def)

text \<open>
  C8 (as amended). In a state that satisfies the invariants with
  \<open>num_elements = capacity\<close>, with an allocator that has memory and a capacity below
  \<open>2 ^ 30\<close> (so that its double is a value of \<open>lst_index_t\<close>), \<open>lst_expand\<close> succeeds
  and doubles the capacity; \<open>idx\<close> and \<open>num_elements\<close> stay; the invariants hold again
  (so every handle field is the reduced index of the record's slot under the new
  capacity); the resident records are the same; and every logical index of
  \<open>[idx, idx + num_elements)\<close> holds the record it held.
\<close>

theorem expand_preserves:
  assumes inv: "lst_inv st" and full: "num_elements st = capacity st" and mem: "mem_ok st"
    and cap: "capacity st < 2 ^ 30"
  shows "fst (lst_expand st) \<and>
         capacity (snd (lst_expand st)) = 2 * capacity st \<and>
         idx (snd (lst_expand st)) = idx st \<and>
         num_elements (snd (lst_expand st)) = num_elements st \<and>
         lst_inv (snd (lst_expand st)) \<and>
         resident (snd (lst_expand st)) = resident st \<and>
         (\<forall>i \<in> {idx st..<idx st + num_elements st}.
            item (snd (lst_expand st)) i = item st i \<and>
            item_index (snd (lst_expand st)) (item st i) = index_reduce (snd (lst_expand st)) i)"
  using lst_expand_full[OF assms] by simp

text \<open>
  The claim as it stands fails at the capacity \<open>2 ^ 30\<close>: the LST is full, the
  invariants hold and the allocator has memory, but the doubled capacity is not a value
  of \<open>int\<close>, and \<open>lst_expand\<close> returns false with the capacity it had.
\<close>

theorem expand_fails_at_max:
  "lst_inv ex_big \<and> num_elements ex_big = capacity ex_big \<and> mem_ok ex_big \<and>
   capacity ex_big = 2 ^ 30 \<and>
   \<not> fst (lst_expand ex_big) \<and> capacity (snd (lst_expand ex_big)) = 2 ^ 30"
proof -
  have c: "capacity ex_big = 2 ^ 30" by (simp add: ex_big_def)
  show ?thesis using ex_big_inv expand_big[OF c] by (simp add: ex_big_def)
qed

lemma ex_wrap_slot: "0 \<le> x \<Longrightarrow> x \<le> 2047 \<Longrightarrow> hnd ex_wrap (p ex_wrap x) = x"
  by (auto simp: ex_wrap_def)

lemma ex_wrap_inv: "lst_inv ex_wrap"
proof (rule lst_invI)
  show "hnd ex_wrap (item ex_wrap i) = index_reduce ex_wrap i" for i
  proof -
    have c: "capacity ex_wrap - 1 = 2047" by (simp add: ex_wrap_def)
    have "hnd ex_wrap (p ex_wrap (i AND 2047)) = i AND 2047"
      by (rule ex_wrap_slot) (simp_all add: AND_upper2')
    then show ?thesis unfolding item_def index_reduce_def c .
  qed
qed (simp_all add: ex_wrap_def is_pow2_2048 stack_item_def)

theorem expand_witness:
  "lst_inv ex_wrap \<and> num_elements ex_wrap = capacity ex_wrap \<and> mem_ok ex_wrap \<and>
   idx ex_wrap = 2 \<and> capacity ex_wrap = 2048 \<and>
   fst (lst_expand ex_wrap) \<and> capacity (snd (lst_expand ex_wrap)) = 4096 \<and>
   lst_inv (snd (lst_expand ex_wrap)) \<and>
   resident (snd (lst_expand ex_wrap)) = resident ex_wrap \<and>
   item ex_wrap 2049 = 2050 \<and> item (snd (lst_expand ex_wrap)) 2049 = 2050 \<and>
   p (snd (lst_expand ex_wrap)) 2049 = 2050 \<and>
   item_index (snd (lst_expand ex_wrap)) 2050 = 2049"
proof -
  have a: "num_elements ex_wrap = capacity ex_wrap" "mem_ok ex_wrap" "idx ex_wrap = 2"
    "capacity ex_wrap = 2048"
    by (simp_all add: ex_wrap_def)
  have b: "item ex_wrap 2049 = 2050" "item (snd (lst_expand ex_wrap)) 2049 = 2050"
    "p (snd (lst_expand ex_wrap)) 2049 = 2050"
    "item_index (snd (lst_expand ex_wrap)) 2050 = 2049"
    by code_simp+
  have cap: "capacity ex_wrap < 2 ^ 30" by (simp add: a(4))
  from expand_preserves[OF ex_wrap_inv a(1,2) cap]
  have "fst (lst_expand ex_wrap)" "capacity (snd (lst_expand ex_wrap)) = 2 * capacity ex_wrap"
    "lst_inv (snd (lst_expand ex_wrap))" "resident (snd (lst_expand ex_wrap)) = resident ex_wrap"
    by blast+
  then show ?thesis using ex_wrap_inv a b by simp
qed

section \<open>Insertions that are refused\<close>

lemma lst_insert_reject:
  assumes inv: "lst_inv st"
    and rep: "num_elements st = capacity st \<Longrightarrow> capacity st \<le> INT_MAX"
    and r: "0 < item_index st d \<or>
            (item_index st d = 0 \<and> 0 < num_elements st \<and> idx st = 0 \<and> item st 0 = d)"
  shows "\<exists>st'. lst_insert st d = Some (- 1, st')"
proof (cases "num_elements st = capacity st")
  case False
  then show ?thesis using r by (auto simp: lst_insert_def Let_def)
next
  case full: True
  consider (big) "capacity st = 2 ^ 30" | (nomem) "\<not> mem_ok st"
    | (grow) "mem_ok st" "capacity st < 2 ^ 30"
    using pow2_int_max[OF lst_inv_pow2[OF inv] rep[OF full]] lst_inv_cap_pos[OF inv] by fastforce
  then show ?thesis
  proof cases
    case big
    then show ?thesis using full expand_big[OF big] by (simp add: lst_insert_def)
  next
    case nomem
    then show ?thesis using full expand_no_memory[OF nomem] by (simp add: lst_insert_def)
  next
    case grow
    note mem = grow(1) and cap = grow(2)
    define st1 where "st1 = snd (lst_expand st)"
    have ex: "lst_expand st = (True, st1)"
      using expand_expanding(1)[OF inv full mem cap] by (simp add: st1_def)
    have e: "expanding st st1 (idx st)"
      using expand_expanding(2)[OF inv full mem cap] by (simp add: st1_def)
    have e5: "\<And>y. hnd st1 y = (if y \<in> p st ` {0..<idx st} then hnd st y + capacity st else hnd st y)"
      using e unfolding expanding_def by blast
    have C: "0 < capacity st" using lst_inv_cap_pos[OF inv] .
    note ep = lst_expand_full[OF inv full mem cap, folded st1_def]
    have "0 < item_index st1 d \<or>
          (item_index st1 d = 0 \<and> 0 < num_elements st1 \<and> idx st1 = 0 \<and> item st1 0 = d)"
      using r
    proof
      assume "0 < item_index st d"
      then show ?thesis using e5[of d] C by (simp add: item_index_def)
    next
      assume a: "item_index st d = 0 \<and> 0 < num_elements st \<and> idx st = 0 \<and> item st 0 = d"
      then have "item st1 0 = item st 0" using ep by simp
      moreover have "hnd st1 d = 0" using e5[of d] a by (simp add: item_index_def)
      ultimately show ?thesis using a ep by (simp add: item_index_def)
    qed
    then show ?thesis using full ex by (auto simp: lst_insert_def Let_def)
  qed
qed

section \<open>The comparator\<close>

lemma cmp_ok_refl: "cmp_ok c \<Longrightarrow> c a a = 0"
  by (simp add: cmp_ok_def)

lemma cmp_ok_flip: "cmp_ok c \<Longrightarrow> (0 \<le> c a b) = (c b a \<le> 0)"
  unfolding cmp_ok_def by (metis not_less)

lemma cmp_ok_trans: "cmp_ok c \<Longrightarrow> c a b \<le> 0 \<Longrightarrow> c b d \<le> 0 \<Longrightarrow> c a d \<le> 0"
  unfolding cmp_ok_def by blast

lemma cmp_ok_trans_ge: "cmp_ok c \<Longrightarrow> 0 \<le> c a b \<Longrightarrow> 0 \<le> c b d \<Longrightarrow> 0 \<le> c a d"
  using cmp_ok_flip[of c] cmp_ok_trans[of c d b a] by simp

lemma cmp_ok_total: "cmp_ok c \<Longrightarrow> c a b \<le> 0 \<or> c b a \<le> 0"
  using cmp_ok_flip[of c a b] by linarith

section \<open>Logical indices and slots\<close>

lemma live_iff: "i \<in> live st \<longleftrightarrow> idx st \<le> i \<and> i < idx st + num_elements st"
  by (simp add: live_def)

lemma resident_live: "resident st = item st ` live st"
  by (simp add: resident_def live_def)

lemma lst_inv_arr: "lst_inv st \<Longrightarrow> arr_inv st"
  using lst_invD(5,6,10)[of st] lst_inv_pow2[of st] by (simp add: arr_inv_def live_iff)

lemma arr_invD:
  assumes "arr_inv st"
  shows "pow2 (capacity st)" "0 \<le> num_elements st" "num_elements st \<le> capacity st"
    "\<And>i. i \<in> live st \<Longrightarrow> hnd st (item st i) = index_reduce st i"
    "index_reduce st j = j mod capacity st"
  using assms index_reduce_mod[of st] by (simp_all add: arr_inv_def)

lemma reduce_eq_live:
  assumes "arr_inv st" "i \<in> live st" "j \<in> live st"
  shows "index_reduce st i = index_reduce st j \<longleftrightarrow> i = j"
proof
  assume "index_reduce st i = index_reduce st j"
  then have "i mod capacity st = j mod capacity st" by (simp add: arr_invD(5)[OF assms(1)])
  then show "i = j"
    using mod_window_eq[of i "capacity st" j "idx st"] assms(2,3) arr_invD(3)[OF assms(1)]
    by (simp add: live_iff)
qed simp

lemma item_inj_live:
  assumes "arr_inv st" "i \<in> live st" "j \<in> live st" "item st i = item st j"
  shows "i = j"
  using arr_invD(4)[OF assms(1,2)] arr_invD(4)[OF assms(1,3)] assms(4)
    reduce_eq_live[OF assms(1,2,3)] by simp

lemma item_eq_iff_live:
  assumes "arr_inv st" "i \<in> live st" "j \<in> live st"
  shows "item st i = item st j \<longleftrightarrow> i = j"
  using item_inj_live[OF assms] by auto

section \<open>Exchanging two records\<close>

lemma swap_items_fields [simp]:
  "capacity (swap_items st a b) = capacity st"
  "idx (swap_items st a b) = idx st"
  "num_elements (swap_items st a b) = num_elements st"
  "s (swap_items st a b) = s st"
  "cmp (swap_items st a b) = cmp st"
  "rnd (swap_items st a b) = rnd st"
  "mem_ok (swap_items st a b) = mem_ok st"
  "live (swap_items st a b) = live st"
  "index_reduce (swap_items st a b) i = index_reduce st i"
  by (simp_all add: swap_items_def live_def)

lemma swap_items_item:
  assumes "arr_inv st" "a \<in> live st" "b \<in> live st" "i \<in> live st"
  shows "item (swap_items st a b) i =
           (if i = a then item st b else if i = b then item st a else item st i)"
  using reduce_eq_live[OF assms(1,4,2)] reduce_eq_live[OF assms(1,4,3)]
    reduce_eq_live[OF assms(1,2,3)]
  by (auto simp: swap_items_def item_lst_move)

lemma swap_items_hnd:
  "hnd (swap_items st a b) y =
     (if y = item st a then index_reduce st b
      else if y = item st b then index_reduce st a else hnd st y)"
  by (simp add: swap_items_def hnd_lst_move)

lemma swap_items_arr:
  assumes "arr_inv st" "a \<in> live st" "b \<in> live st"
  shows "arr_inv (swap_items st a b)"
proof -
  have "hnd (swap_items st a b) (item (swap_items st a b) i) = index_reduce st i"
    if "i \<in> live st" for i
    using that arr_invD(4)[OF assms(1) that]
      item_eq_iff_live[OF assms(1) that assms(2)] item_eq_iff_live[OF assms(1) that assms(3)]
      item_eq_iff_live[OF assms(1) assms(2) assms(3)]
    by (auto simp: swap_items_item[OF assms that] swap_items_hnd)
  then show ?thesis using assms(1) by (simp add: arr_inv_def)
qed

lemma swap_items_image:
  assumes "arr_inv st" "a \<in> live st" "b \<in> live st" "A \<subseteq> live st" "a \<in> A" "b \<in> A"
  shows "item (swap_items st a b) ` A = item st ` A"
proof -
  have "item (swap_items st a b) i \<in> item st ` A" if "i \<in> A" for i
    using that assms(4,5,6) swap_items_item[OF assms(1,2,3), of i] by auto
  moreover have "item st i \<in> item (swap_items st a b) ` A" if "i \<in> A" for i
  proof -
    define j where "j = (if i = a then b else if i = b then a else i)"
    have "j \<in> A" using that assms(5,6) by (simp add: j_def)
    moreover have "item (swap_items st a b) j = item st i"
      using swap_items_item[OF assms(1,2,3), of j] \<open>j \<in> A\<close> assms(4) by (auto simp: j_def)
    ultimately show ?thesis by (metis image_eqI)
  qed
  ultimately show ?thesis by auto
qed

section \<open>Arithmetic of wrapped indices\<close>

lemma mod_add_small:
  fixes x d c :: int
  assumes "0 < c" "0 \<le> d" "d < c"
  shows "(x + d) mod c = (if x mod c + d < c then x mod c + d else x mod c + d - c)"
proof -
  have r: "0 \<le> x mod c" "x mod c < c" using assms(1) by simp_all
  have e: "(x + d) mod c = (x mod c + d) mod c" by (simp add: mod_add_left_eq)
  show ?thesis
  proof (cases "x mod c + d < c")
    case True
    then show ?thesis using e r assms by simp
  next
    case False
    moreover have "x mod c + d < 2 * c" using r assms by linarith
    ultimately have "(x mod c + d) mod c = x mod c + d - c"
      using mod_second_window[of c "x mod c + d"] by simp
    then show ?thesis using e False by simp
  qed
qed

lemma locate_wrapped:
  fixes lo pp hi c :: int
  assumes "0 < c" "lo \<le> pp" "pp \<le> hi" "hi - lo < c"
  shows "(if lo mod c \<le> pp mod c then lo + pp mod c - lo mod c
          else hi - (hi mod c - pp mod c)) = pp"
proof -
  have r: "0 \<le> lo mod c" "lo mod c < c" using assms(1) by simp_all
  have a: "pp mod c = (if lo mod c + (pp - lo) < c then lo mod c + (pp - lo)
                       else lo mod c + (pp - lo) - c)"
    using mod_add_small[of c "pp - lo" lo] assms by simp
  have b: "hi mod c = (if pp mod c + (hi - pp) < c then pp mod c + (hi - pp)
                       else pp mod c + (hi - pp) - c)"
    using mod_add_small[of c "hi - pp" pp] assms by simp
  show ?thesis
  proof (cases "lo mod c + (pp - lo) < c")
    case True
    then show ?thesis using a assms by simp
  next
    case False
    then have p: "pp mod c = lo mod c + (pp - lo) - c" using a by simp
    then have "pp mod c + (hi - pp) < c" using assms r by linarith
    then have "hi mod c = pp mod c + (hi - pp)" using b by simp
    then show ?thesis using p assms r by simp
  qed
qed

section \<open>The scans\<close>

lemma scan_h_stops:
  assumes "j < h" "cmp st (item st j) pv \<le> 0"
  shows "\<exists>h1. scan_h st pv h = Some h1 \<and> j \<le> h1 \<and> h1 < h \<and>
               cmp st (item st h1) pv \<le> 0 \<and>
               (\<forall>i. h1 < i \<and> i < h \<longrightarrow> 0 < cmp st (item st i) pv)"
  using assms(1)
proof (induction "nat (h - j)" arbitrary: h rule: less_induct)
  case less
  show ?case
  proof (cases "0 < cmp st (item st (h - 1)) pv")
    case False
    then have "scan_h st pv h = Some (h - 1)" by (simp add: scan_h.simps[of st pv h])
    then show ?thesis using False less(2) by auto
  next
    case True
    then have ne: "j \<noteq> h - 1" using assms(2) by auto
    then have lt: "j < h - 1" using less(2) by simp
    have "nat (h - 1 - j) < nat (h - j)" using less(2) by simp
    from less(1)[OF this lt] obtain h1 where
      h1: "scan_h st pv (h - 1) = Some h1" "j \<le> h1" "h1 < h - 1"
        "cmp st (item st h1) pv \<le> 0"
        "\<And>i. h1 < i \<Longrightarrow> i < h - 1 \<Longrightarrow> 0 < cmp st (item st i) pv"
      by blast
    have "scan_h st pv h = Some h1" using True h1(1) by (simp add: scan_h.simps[of st pv h])
    moreover have "0 < cmp st (item st i) pv" if "h1 < i" "i < h" for i
      using that h1(5)[of i] True by (cases "i = h - 1") auto
    ultimately show ?thesis using h1(2,3,4) by auto
  qed
qed

lemma scan_l_stops:
  assumes "l < j" "0 \<le> cmp st (item st j) pv"
  shows "\<exists>l1. scan_l st pv l = Some l1 \<and> l < l1 \<and> l1 \<le> j \<and>
               0 \<le> cmp st (item st l1) pv \<and>
               (\<forall>i. l < i \<and> i < l1 \<longrightarrow> cmp st (item st i) pv < 0)"
  using assms(1)
proof (induction "nat (j - l)" arbitrary: l rule: less_induct)
  case less
  show ?case
  proof (cases "cmp st (item st (l + 1)) pv < 0")
    case False
    then have "scan_l st pv l = Some (l + 1)" by (simp add: scan_l.simps[of st pv l])
    then show ?thesis using False less(2) by auto
  next
    case True
    then have ne: "j \<noteq> l + 1" using assms(2) by auto
    then have lt: "l + 1 < j" using less(2) by simp
    have "nat (j - (l + 1)) < nat (j - l)" using less(2) by simp
    from less(1)[OF this lt] obtain l1 where
      l1: "scan_l st pv (l + 1) = Some l1" "l + 1 < l1" "l1 \<le> j"
        "0 \<le> cmp st (item st l1) pv"
        "\<And>i. l + 1 < i \<Longrightarrow> i < l1 \<Longrightarrow> cmp st (item st i) pv < 0"
      by blast
    have "scan_l st pv l = Some l1" using True l1(1) by (simp add: scan_l.simps[of st pv l])
    moreover have "cmp st (item st i) pv < 0" if "l < i" "i < l1" for i
      using that l1(5)[of i] True by (cases "i = l + 1") auto
    ultimately show ?thesis using l1(2,3,4) by auto
  qed
qed

section \<open>Exchanges inside a range\<close>

lemma framed_refl [simp]: "framed st st"
  by (simp add: framed_def)

lemma framed_live: "framed st0 st \<Longrightarrow> live st = live st0"
  by (simp add: framed_def live_def)

lemma shuffled_refl: "arr_inv st \<Longrightarrow> shuffled st st lo hi"
  by (simp add: shuffled_def)

lemma shuffled_swap:
  assumes sh: "shuffled st0 st lo hi" and sub: "{lo..hi} \<subseteq> live st0"
    and a: "a \<in> {lo..hi}" and b: "b \<in> {lo..hi}"
  shows "shuffled st0 (swap_items st a b) lo hi"
proof -
  have fr: "framed st0 st" and ar: "arr_inv st"
    and im: "item st ` {lo..hi} = item st0 ` {lo..hi}"
    and out: "\<And>i. i \<in> live st0 \<Longrightarrow> i \<notin> {lo..hi} \<Longrightarrow> item st i = item st0 i"
    and hn: "\<And>y. y \<notin> item st0 ` {lo..hi} \<Longrightarrow> hnd st y = hnd st0 y"
    using sh unfolding shuffled_def by blast+
  have lv: "live st = live st0" using framed_live[OF fr] .
  have al: "a \<in> live st" "b \<in> live st" "{lo..hi} \<subseteq> live st" using a b sub lv by auto
  have 1: "framed st0 (swap_items st a b)" using fr by (simp add: framed_def)
  have 2: "arr_inv (swap_items st a b)" using swap_items_arr[OF ar al(1,2)] .
  have 3: "item (swap_items st a b) ` {lo..hi} = item st0 ` {lo..hi}"
    using swap_items_image[OF ar al(1,2) al(3) a b] im by simp
  have 4: "item (swap_items st a b) i = item st0 i" if "i \<in> live st0" "i \<notin> {lo..hi}" for i
  proof -
    have "i \<noteq> a" "i \<noteq> b" using that a b by auto
    then show ?thesis using swap_items_item[OF ar al(1,2), of i] that lv out by simp
  qed
  have 5: "hnd (swap_items st a b) y = hnd st0 y" if "y \<notin> item st0 ` {lo..hi}" for y
  proof -
    have "item st a \<in> item st0 ` {lo..hi}" "item st b \<in> item st0 ` {lo..hi}"
      using a b im by blast+
    then have "y \<noteq> item st a" "y \<noteq> item st b" using that by auto
    then show ?thesis using hn[OF that] by (simp add: swap_items_hnd)
  qed
  show ?thesis unfolding shuffled_def using 1 2 3 4 5 by blast
qed

section \<open>The Hoare loop\<close>

lemma hoare_loop_total:
  assumes sub: "{lo..hi} \<subseteq> live st0"
  shows "shuffled st0 st lo hi \<Longrightarrow> l < h \<Longrightarrow> lo - 1 \<le> l \<Longrightarrow> h \<le> hi + 1 \<Longrightarrow>
     (\<forall>i. lo \<le> i \<and> i \<le> l \<longrightarrow> cmp st (item st i) pv \<le> 0) \<Longrightarrow>
     (\<forall>i. h \<le> i \<and> i \<le> hi \<longrightarrow> 0 \<le> cmp st (item st i) pv) \<Longrightarrow>
     (\<exists>j. lo \<le> j \<and> j < h \<and> cmp st (item st j) pv \<le> 0) \<Longrightarrow>
     (\<exists>j. l < j \<and> j \<le> hi \<and> 0 \<le> cmp st (item st j) pv) \<Longrightarrow>
     \<exists>st' l' h'. hoare_loop st pv l h = Some (st', l', h') \<and> shuffled st0 st' lo hi \<and>
        rnd st' = rnd st \<and> lo \<le> h' \<and> h' \<le> hi \<and>
        (\<forall>i. lo \<le> i \<and> i \<le> h' \<longrightarrow> cmp st' (item st' i) pv \<le> 0) \<and>
        (\<forall>i. h' < i \<and> i \<le> hi \<longrightarrow> 0 \<le> cmp st' (item st' i) pv)"
proof (induction "nat (h - l)" arbitrary: st l h rule: less_induct)
  case less
  note sh = less(2) and lh = less(3) and lb = less(4) and hb = less(5)
  have left: "\<And>i. lo \<le> i \<Longrightarrow> i \<le> l \<Longrightarrow> cmp st (item st i) pv \<le> 0" using less(6) by blast
  have right: "\<And>i. h \<le> i \<Longrightarrow> i \<le> hi \<Longrightarrow> 0 \<le> cmp st (item st i) pv" using less(7) by blast
  from less(8) obtain jh where jh: "lo \<le> jh" "jh < h" "cmp st (item st jh) pv \<le> 0" by blast
  from less(9) obtain jl where jl: "l < jl" "jl \<le> hi" "0 \<le> cmp st (item st jl) pv" by blast
  from scan_h_stops[OF jh(2,3)] obtain h1 where
    h1: "scan_h st pv h = Some h1" "jh \<le> h1" "h1 < h" "cmp st (item st h1) pv \<le> 0"
      "\<And>i. h1 < i \<Longrightarrow> i < h \<Longrightarrow> 0 < cmp st (item st i) pv"
    by blast
  from scan_l_stops[OF jl(1,3)] obtain l1 where
    l1: "scan_l st pv l = Some l1" "l < l1" "l1 \<le> jl" "0 \<le> cmp st (item st l1) pv"
      "\<And>i. l < i \<Longrightarrow> i < l1 \<Longrightarrow> cmp st (item st i) pv < 0"
    by blast
  have bnd: "lo \<le> h1" "h1 \<le> hi" "lo \<le> l1" "l1 \<le> hi"
    using jh h1 jl l1 lb hb by linarith+
  show ?case
  proof (cases "h1 \<le> l1")
    case True
    have r: "hoare_loop st pv l h = Some (st, l1, h1)"
      using h1(1) l1(1) True by (simp add: hoare_loop.simps[of st pv l h])
    have a: "cmp st (item st i) pv \<le> 0" if "lo \<le> i" "i \<le> h1" for i
    proof (cases "i \<le> l")
      case True
      then show ?thesis using left that by simp
    next
      case f: False
      show ?thesis
      proof (cases "i < l1")
        case True
        then show ?thesis using l1(5)[of i] f by simp
      next
        case False
        then have "i = h1" using that \<open>h1 \<le> l1\<close> by simp
        then show ?thesis using h1(4) by simp
      qed
    qed
    have b: "0 \<le> cmp st (item st i) pv" if "h1 < i" "i \<le> hi" for i
    proof (cases "h \<le> i")
      case True
      then show ?thesis using right that by simp
    next
      case False
      then show ?thesis using h1(5)[of i] that by simp
    qed
    show ?thesis using r sh bnd a b by simp
  next
    case False
    then have lt: "l1 < h1" by simp
    define st2 where "st2 = swap_items st l1 h1"
    have r: "hoare_loop st pv l h = hoare_loop st2 pv l1 h1"
      using h1(1) l1(1) False
      by (simp add: hoare_loop.simps[of st pv l h] st2_def swap_items_def)
    have fr: "framed st0 st" and ar: "arr_inv st"
      using sh unfolding shuffled_def by blast+
    have lv: "live st = live st0" using framed_live[OF fr] .
    have mem: "l1 \<in> {lo..hi}" "h1 \<in> {lo..hi}" using bnd by simp_all
    then have lvm: "l1 \<in> live st" "h1 \<in> live st" using sub lv by auto
    have sh2: "shuffled st0 st2 lo hi"
      unfolding st2_def using shuffled_swap[OF sh sub mem] .
    have it2: "item st2 i = (if i = l1 then item st h1 else if i = h1 then item st l1 else item st i)"
      if "lo \<le> i" "i \<le> hi" for i
    proof -
      have "i \<in> live st" using that sub lv by auto
      then show ?thesis unfolding st2_def using swap_items_item[OF ar lvm] by simp
    qed
    have c2: "cmp st2 = cmp st" "rnd st2 = rnd st" by (simp_all add: st2_def)
    have a: "\<forall>i. lo \<le> i \<and> i \<le> l1 \<longrightarrow> cmp st2 (item st2 i) pv \<le> 0"
    proof (intro allI impI)
      fix i assume i: "lo \<le> i \<and> i \<le> l1"
      show "cmp st2 (item st2 i) pv \<le> 0"
      proof (cases "i = l1")
        case True
        then show ?thesis using it2[of i] i bnd h1(4) by (simp add: c2)
      next
        case False
        then have "item st2 i = item st i" using it2[of i] i bnd lt by simp
        moreover have "cmp st (item st i) pv \<le> 0"
          using left[of i] l1(5)[of i] i False by (cases "i \<le> l") auto
        ultimately show ?thesis by (simp add: c2)
      qed
    qed
    have b: "\<forall>i. h1 \<le> i \<and> i \<le> hi \<longrightarrow> 0 \<le> cmp st2 (item st2 i) pv"
    proof (intro allI impI)
      fix i assume i: "h1 \<le> i \<and> i \<le> hi"
      show "0 \<le> cmp st2 (item st2 i) pv"
      proof (cases "i = h1")
        case True
        then show ?thesis using it2[of i] i bnd lt l1(4) by (simp add: c2)
      next
        case False
        then have "item st2 i = item st i" using it2[of i] i bnd lt by simp
        moreover have "0 \<le> cmp st (item st i) pv"
          using right[of i] h1(5)[of i] i False by (cases "h \<le> i") auto
        ultimately show ?thesis by (simp add: c2)
      qed
    qed
    have c: "\<exists>j. lo \<le> j \<and> j < h1 \<and> cmp st2 (item st2 j) pv \<le> 0"
      using a bnd lt by (intro exI[of _ l1]) simp
    have d: "\<exists>j. l1 < j \<and> j \<le> hi \<and> 0 \<le> cmp st2 (item st2 j) pv"
      using b bnd lt by (intro exI[of _ h1]) simp
    have m: "nat (h1 - l1) < nat (h - l)" using lt h1(3) l1(2) by simp
    have "lo - 1 \<le> l1" "h1 \<le> hi + 1" using bnd by simp_all
    from less(1)[OF m sh2 lt this a b c d] show ?thesis
      unfolding r by (simp add: c2)
  qed
qed

section \<open>The choice and the placement of the pivot\<close>

lemma c_rem_nonneg: "0 \<le> a \<Longrightarrow> 0 < b \<Longrightarrow> c_rem a b = a mod b"
  by (cases "a = 0") (simp_all add: c_rem_def sgn_if)

lemma is_equivalent_live:
  assumes "arr_inv st" "i \<in> live st" "j \<in> live st"
  shows "is_equivalent st i j \<longleftrightarrow> i = j"
proof -
  have c: "0 < capacity st" using arr_invD(1)[OF assms(1)] pow2_pos by blast
  have "(i - j) mod capacity st = 0 \<longleftrightarrow> i mod capacity st = j mod capacity st"
    by (simp add: mod_eq_dvd_iff mod_eq_0_iff_dvd)
  then have "is_equivalent st i j \<longleftrightarrow> index_reduce st i = index_reduce st j"
    by (simp add: is_equivalent_def arr_invD(5)[OF assms(1)])
  then show ?thesis using reduce_eq_live[OF assms] by simp
qed

lemma shuffled_trans_frame:
  assumes "shuffled st0 st lo hi"
  shows "capacity st = capacity st0" "idx st = idx st0" "num_elements st = num_elements st0"
    "s st = s st0" "cmp st = cmp st0" "mem_ok st = mem_ok st0" "live st = live st0"
    "arr_inv st" "item st ` {lo..hi} = item st0 ` {lo..hi}"
    "\<And>i. i \<in> live st0 \<Longrightarrow> i \<notin> {lo..hi} \<Longrightarrow> item st i = item st0 i"
    "\<And>y. y \<notin> item st0 ` {lo..hi} \<Longrightarrow> hnd st y = hnd st0 y"
    "\<And>i. index_reduce st i = index_reduce st0 i"
  using assms unfolding shuffled_def framed_def live_def index_reduce_def by auto

lemma choose_pivot_props:
  assumes ar: "arr_inv st" and sub: "{lo..hi} \<subseteq> live st" and lh: "lo \<le> hi"
  shows "shuffled st (snd (choose_pivot st lo hi)) lo hi"
    "item (snd (choose_pivot st lo hi)) lo = fst (choose_pivot st lo hi)"
    "fst (choose_pivot st lo hi) \<in> item st ` {lo..hi}"
proof -
  define st0 where "st0 = snd (rand st)"
  define r where "r = fst (rand st)"
  define pidx where "pidx = lo + c_rem r (hi + 1 - lo)"
  have rr: "rand st = (r, st0)" by (simp add: r_def st0_def)
  have r0: "0 \<le> r" by (simp add: r_def rand_def)
  have pin: "pidx \<in> {lo..hi}"
  proof -
    have "0 \<le> r mod (hi + 1 - lo)" "r mod (hi + 1 - lo) < hi + 1 - lo" using lh by simp_all
    moreover have "c_rem r (hi + 1 - lo) = r mod (hi + 1 - lo)"
      using c_rem_nonneg[OF r0, of "hi + 1 - lo"] lh by simp
    ultimately show ?thesis unfolding pidx_def by simp
  qed
  have it0: "item st0 i = item st i" for i by (simp add: st0_def rand_def)
  have lv0: "live st0 = live st" by (simp add: st0_def live_def)
  have ar0: "arr_inv st0"
    using ar by (simp add: arr_inv_def lv0 it0) (simp add: st0_def rand_def index_reduce_def)
  have sh0: "shuffled st st0 lo hi"
    using ar0 by (simp add: shuffled_def framed_def it0) (simp add: st0_def rand_def)
  have cp: "choose_pivot st lo hi =
      (item st pidx, if pidx \<noteq> lo then swap_items st0 pidx lo else st0)"
    by (simp only: choose_pivot_def rr Let_def prod.case pidx_def[symmetric] it0 swap_items_def)
  have lo_in: "lo \<in> {lo..hi}" using lh by simp
  show "shuffled st (snd (choose_pivot st lo hi)) lo hi"
    using sh0 shuffled_swap[OF sh0 sub pin lo_in] by (simp add: cp)
  show "fst (choose_pivot st lo hi) \<in> item st ` {lo..hi}" using pin by (simp add: cp)
  have "pidx \<in> live st0" "lo \<in> live st0" using pin lo_in sub lv0 by auto
  then show "item (snd (choose_pivot st lo hi)) lo = fst (choose_pivot st lo hi)"
    using swap_items_item[OF ar0, of pidx lo lo] by (simp add: cp it0)
qed

lemma choose_pivot_rnd:
  "rnd (snd (choose_pivot st lo hi)) = (\<lambda>i. rnd st (Suc i))"
  by (simp add: choose_pivot_def Let_def rand_def split: prod.splits)

lemma place_pivot_props:
  assumes sh: "shuffled st0 st lo hi" and sub: "{lo..hi} \<subseteq> live st0"
    and pv: "pv \<in> item st0 ` {lo..hi}" and h: "lo \<le> h" "h \<le> hi"
    and left: "\<And>i. lo \<le> i \<Longrightarrow> i \<le> h \<Longrightarrow> cmp st (item st i) pv \<le> 0"
    and right: "\<And>i. h < i \<Longrightarrow> i \<le> hi \<Longrightarrow> 0 \<le> cmp st (item st i) pv"
  shows "\<exists>h2 st3. place_pivot st lo hi h pv = (h2, st3) \<and> shuffled st0 st3 lo hi \<and>
           rnd st3 = rnd st \<and>
           lo \<le> h2 \<and> h2 \<le> hi \<and> item st3 h2 = pv \<and>
           (\<forall>i. lo \<le> i \<and> i < h2 \<longrightarrow> cmp st3 (item st3 i) pv \<le> 0) \<and>
           (\<forall>i. h2 < i \<and> i \<le> hi \<longrightarrow> 0 \<le> cmp st3 (item st3 i) pv)"
proof -
  note f = shuffled_trans_frame[OF sh]
  have ar: "arr_inv st" using f(8) .
  have lv: "live st = live st0" using f(7) .
  have subl: "{lo..hi} \<subseteq> live st" using sub lv by simp
  from pv f(9) obtain pp where pp: "pp \<in> {lo..hi}" "item st pp = pv" by (metis imageE)
  have ppl: "pp \<in> live st" using pp subl by auto
  have C: "0 < capacity st" using arr_invD(1)[OF ar] pow2_pos by blast
  have w: "hi - lo < capacity st"
  proof -
    have "lo \<in> live st" "hi \<in> live st" using subl h by auto
    then show ?thesis using arr_invD(3)[OF ar] by (simp add: live_iff)
  qed
  have hp: "hnd st pv = pp mod capacity st"
    using arr_invD(4)[OF ar ppl] pp(2) by (simp add: arr_invD(5)[OF ar])
  have loc: "(if index_reduce st lo \<le> item_index st pv
              then lo + item_index st pv - index_reduce st lo
              else hi - (index_reduce st hi - item_index st pv)) = pp"
    unfolding item_index_def hp arr_invD(5)[OF ar]
    using pp(1) w by (intro locate_wrapped[OF C]) auto
  have hl: "h \<in> live st" "h \<in> {lo..hi}" using h subl by auto
  consider (lt) "pp < h" | (eq) "pp = h" | (gt) "h < pp" by linarith
  then show ?thesis
  proof cases
    case eq
    then have "place_pivot st lo hi h pv = (h, st)"
      by (simp add: place_pivot_def Let_def loc)
    then show ?thesis using sh h pp eq left right by auto
  next
    case lt
    define st3 where "st3 = swap_items st pp h"
    have r: "place_pivot st lo hi h pv = (h, st3)"
      using lt by (simp add: place_pivot_def Let_def loc st3_def swap_items_def pp(2))
    have sh3: "shuffled st0 st3 lo hi"
      unfolding st3_def using shuffled_swap[OF sh sub pp(1) hl(2)] .
    have it3: "item st3 i = (if i = pp then item st h else if i = h then item st pp else item st i)"
      if "lo \<le> i" "i \<le> hi" for i
    proof -
      have "i \<in> live st" using that subl by auto
      then show ?thesis unfolding st3_def using swap_items_item[OF ar ppl hl(1)] by simp
    qed
    have c3: "cmp st3 = cmp st" "rnd st3 = rnd st" by (simp_all add: st3_def)
    have a: "cmp st3 (item st3 i) pv \<le> 0" if "lo \<le> i \<and> i < h" for i
      using that it3[of i] left[of i] left[of h] h by (auto simp: c3)
    have b: "0 \<le> cmp st3 (item st3 i) pv" if "h < i \<and> i \<le> hi" for i
      using that it3[of i] right[of i] lt h by (auto simp: c3)
    have "item st3 h = pv" using it3[of h] h lt pp(2) by simp
    then show ?thesis using r sh3 h a b c3 by auto
  next
    case gt
    define st3 where "st3 = swap_items st pp (h + 1)"
    have h1: "h + 1 \<in> {lo..hi}" using gt pp(1) h by simp
    then have h1l: "h + 1 \<in> live st" using subl by auto
    have r: "place_pivot st lo hi h pv = (h + 1, st3)"
      using gt by (simp add: place_pivot_def Let_def loc st3_def swap_items_def pp(2))
    have sh3: "shuffled st0 st3 lo hi"
      unfolding st3_def using shuffled_swap[OF sh sub pp(1) h1] .
    have it3: "item st3 i =
        (if i = pp then item st (h + 1) else if i = h + 1 then item st pp else item st i)"
      if "lo \<le> i" "i \<le> hi" for i
    proof -
      have "i \<in> live st" using that subl by auto
      then show ?thesis unfolding st3_def using swap_items_item[OF ar ppl h1l] by simp
    qed
    have c3: "cmp st3 = cmp st" "rnd st3 = rnd st" by (simp_all add: st3_def)
    have a: "cmp st3 (item st3 i) pv \<le> 0" if "lo \<le> i \<and> i < h + 1" for i
      using that it3[of i] left[of i] gt h by (auto simp: c3)
    have b: "0 \<le> cmp st3 (item st3 i) pv" if "h + 1 < i \<and> i \<le> hi" for i
      using that it3[of i] right[of i] right[of "h + 1"] h1 by (auto simp: c3)
    have "item st3 (h + 1) = pv" using it3[of "h + 1"] h1 pp(2) by simp
    then show ?thesis using r sh3 h1 a b c3 by auto
  qed
qed

section \<open>partition\<close>

lemma stack_push_True:
  "depth (snd (stack_push True stk v)) = depth stk + 1"
  "stack_item (snd (stack_push True stk v)) j = (if j = depth stk then v else stack_item stk j)"
  "fst (stack_push True stk v) = 0"
  by (simp_all add: stack_push_def stack_expand_def stack_item_def Let_def split: prod.splits)

lemma bucket_bounds:
  assumes inv: "lst_inv st" and b: "is_bucket st k"
  shows "depth (s st) = k + 1" "bucket_lwb st k = idx st"
    "bucket_upb st k = stack_item (s st) k - 1"
    "bucket_upb st k < idx st + num_elements st" "idx st - 1 \<le> bucket_upb st k"
proof -
  show d: "depth (s st) = k + 1"
    using b by (simp add: is_bucket_def lst_length_def stack_depth_def)
  show "bucket_lwb st k = idx st" using b by (simp add: bucket_lwb_def)
  show "bucket_upb st k = stack_item (s st) k - 1" by (simp add: bucket_upb_def)
  show "bucket_upb st k < idx st + num_elements st"
    using stack_decreasing[OF inv, of 0 k] d lst_invD(7)[OF inv] by (simp add: bucket_upb_def)
  show "idx st - 1 \<le> bucket_upb st k"
    using stack_lower[OF inv, of k] d by (simp add: bucket_upb_def)
qed

lemma partition_shape:
  assumes inv: "lst_inv st" and c: "cmp_ok (cmp st)" and b: "is_bucket st k"
    and ne: "bucket_lwb st k \<le> bucket_upb st k"
  shows "\<exists>st3 h. partition st k = Some (st3\<lparr>s := snd (stack_push (mem_ok st) (s st) h)\<rparr>) \<and>
           shuffled st st3 (bucket_lwb st k) (bucket_upb st k) \<and>
           bucket_lwb st k \<le> h \<and> h \<le> bucket_upb st k \<and>
           (\<forall>i. bucket_lwb st k \<le> i \<and> i < h \<longrightarrow> cmp st (item st3 i) (item st3 h) \<le> 0) \<and>
           (\<forall>i. h < i \<and> i \<le> bucket_upb st k \<longrightarrow> 0 \<le> cmp st (item st3 i) (item st3 h))"
proof -
  define lo where "lo = bucket_lwb st k"
  define hi where "hi = bucket_upb st k"
  note bb = bucket_bounds[OF inv b]
  have ar: "arr_inv st" using lst_inv_arr[OF inv] .
  have lh: "lo \<le> hi" using ne by (simp add: lo_def hi_def)
  have sub: "{lo..hi} \<subseteq> live st"
    using bb(2,4) by (auto simp: lo_def hi_def live_iff)
  have lol: "lo \<in> live st" "hi \<in> live st" using sub lh by auto
  show ?thesis
  proof (cases "lo = hi")
    case True
    then have "is_equivalent st lo hi" using is_equivalent_live[OF ar lol] by simp
    then have "partition st k = Some (st\<lparr>s := snd (stack_push (mem_ok st) (s st) lo)\<rparr>)"
      by (simp add: partition_def Let_def lo_def hi_def)
    then show ?thesis
      using shuffled_refl[OF ar, of lo hi] True
      unfolding lo_def[symmetric] hi_def[symmetric]
      by (intro exI[of _ st] exI[of _ lo]) simp
  next
    case False
    then have ne2: "\<not> is_equivalent st lo hi" using is_equivalent_live[OF ar lol] by simp
    define pv where "pv = fst (choose_pivot st lo hi)"
    define st1 where "st1 = snd (choose_pivot st lo hi)"
    have cp: "choose_pivot st lo hi = (pv, st1)" by (simp add: pv_def st1_def)
    note cpp = choose_pivot_props[OF ar sub lh, folded pv_def st1_def]
    note f1 = shuffled_trans_frame[OF cpp(1)]
    have pp: "cmp st1 (item st1 lo) pv = 0" using cpp(2) cmp_ok_refl[OF c] f1(5) by simp
    have "\<exists>st' l' h'. hoare_loop st1 pv (lo - 1) (hi + 1) = Some (st', l', h') \<and>
        shuffled st st' lo hi \<and> rnd st' = rnd st1 \<and> lo \<le> h' \<and> h' \<le> hi \<and>
        (\<forall>i. lo \<le> i \<and> i \<le> h' \<longrightarrow> cmp st' (item st' i) pv \<le> 0) \<and>
        (\<forall>i. h' < i \<and> i \<le> hi \<longrightarrow> 0 \<le> cmp st' (item st' i) pv)"
    proof (rule hoare_loop_total[OF sub cpp(1)])
      show "lo - 1 < hi + 1" using lh by simp
      show "\<exists>j. lo \<le> j \<and> j < hi + 1 \<and> cmp st1 (item st1 j) pv \<le> 0"
        using pp lh by (intro exI[of _ lo]) simp
      show "\<exists>j. lo - 1 < j \<and> j \<le> hi \<and> 0 \<le> cmp st1 (item st1 j) pv"
        using pp lh by (intro exI[of _ lo]) simp
    qed auto
    then obtain st2 l' h' where
      hl: "hoare_loop st1 pv (lo - 1) (hi + 1) = Some (st2, l', h')"
      and sh2: "shuffled st st2 lo hi" and hb: "lo \<le> h'" "h' \<le> hi"
      and left: "\<And>i. lo \<le> i \<Longrightarrow> i \<le> h' \<Longrightarrow> cmp st2 (item st2 i) pv \<le> 0"
      and right: "\<And>i. h' < i \<Longrightarrow> i \<le> hi \<Longrightarrow> 0 \<le> cmp st2 (item st2 i) pv"
      by blast
    from place_pivot_props[OF sh2 sub cpp(3) hb left right] obtain h2 st3 where
      pl: "place_pivot st2 lo hi h' pv = (h2, st3)" and sh3: "shuffled st st3 lo hi"
      and h2: "lo \<le> h2" "h2 \<le> hi" "item st3 h2 = pv"
      and l3: "\<And>i. lo \<le> i \<Longrightarrow> i < h2 \<Longrightarrow> cmp st3 (item st3 i) pv \<le> 0"
      and r3: "\<And>i. h2 < i \<Longrightarrow> i \<le> hi \<Longrightarrow> 0 \<le> cmp st3 (item st3 i) pv"
      by blast
    note f3 = shuffled_trans_frame[OF sh3]
    have "partition st k = Some (st3\<lparr>s := snd (stack_push (mem_ok st3) (s st3) h2)\<rparr>)"
      using ne2 False lh cp hl pl
      by (simp add: partition_def Let_def lo_def[symmetric] hi_def[symmetric])
    then have "partition st k = Some (st3\<lparr>s := snd (stack_push (mem_ok st) (s st) h2)\<rparr>)"
      using f3(4,6) by simp
    then show ?thesis
      using sh3 h2 l3 r3 f3(5)
      unfolding lo_def[symmetric] hi_def[symmetric]
      by (intro exI[of _ st3] exI[of _ h2]) simp
  qed
qed

lemma shuffled_resident:
  assumes sh: "shuffled st0 st lo hi" and sub: "{lo..hi} \<subseteq> live st0"
  shows "resident st = resident st0"
proof -
  note f = shuffled_trans_frame[OF sh]
  have "live st0 = {lo..hi} \<union> (live st0 - {lo..hi})" using sub by auto
  then have "item st ` live st0 = item st ` {lo..hi} \<union> item st ` (live st0 - {lo..hi})"
    by (metis image_Un)
  also have "item st ` (live st0 - {lo..hi}) = item st0 ` (live st0 - {lo..hi})"
    using f(10) by (intro image_cong) auto
  also have "item st ` {lo..hi} = item st0 ` {lo..hi}" using f(9) .
  also have "item st0 ` {lo..hi} \<union> item st0 ` (live st0 - {lo..hi}) = item st0 ` live st0"
    using sub by (metis image_Un \<open>live st0 = {lo..hi} \<union> (live st0 - {lo..hi})\<close>)
  finally show ?thesis by (simp add: resident_live f(7))
qed

lemma partition_total:
  assumes inv: "lst_inv st" and c: "cmp_ok (cmp st)" and mem: "mem_ok st"
    and b: "is_bucket st k" and ne: "bucket_lwb st k \<le> bucket_upb st k"
  shows "\<exists>st' h. partition st k = Some st' \<and> lst_inv st' \<and>
           capacity st' = capacity st \<and> idx st' = idx st \<and>
           num_elements st' = num_elements st \<and> cmp st' = cmp st \<and> mem_ok st' = mem_ok st \<and>
           depth (s st') = depth (s st) + 1 \<and>
           (\<forall>j < depth (s st). stack_item (s st') j = stack_item (s st) j) \<and>
           stack_item (s st') (depth (s st)) = h \<and>
           bucket_lwb st k \<le> h \<and> h \<le> bucket_upb st k \<and>
           (\<forall>i. bucket_lwb st k \<le> i \<and> i < h \<longrightarrow> cmp st (item st' i) (item st' h) \<le> 0) \<and>
           (\<forall>i. h < i \<and> i \<le> bucket_upb st k \<longrightarrow> 0 \<le> cmp st (item st' i) (item st' h)) \<and>
           resident st' = resident st \<and>
           (\<forall>y. y \<notin> resident st \<longrightarrow> hnd st' y = hnd st y)"
proof -
  define lo where "lo = bucket_lwb st k"
  define hi where "hi = bucket_upb st k"
  note bb = bucket_bounds[OF inv b]
  note d = lst_invD[OF inv]
  from partition_shape[OF inv c b ne, folded lo_def hi_def] mem obtain st3 h where
    pt: "partition st k = Some (st3\<lparr>s := snd (stack_push True (s st) h)\<rparr>)"
    and sh: "shuffled st st3 lo hi" and hb: "lo \<le> h" "h \<le> hi"
    and left: "\<And>i. lo \<le> i \<Longrightarrow> i < h \<Longrightarrow> cmp st (item st3 i) (item st3 h) \<le> 0"
    and right: "\<And>i. h < i \<Longrightarrow> i \<le> hi \<Longrightarrow> 0 \<le> cmp st (item st3 i) (item st3 h)"
    by auto
  define st' where "st' = st3\<lparr>s := snd (stack_push True (s st) h)\<rparr>"
  note f = shuffled_trans_frame[OF sh]
  have lo: "lo = idx st" and hi: "hi = stack_item (s st) k - 1" and dk: "depth (s st) = k + 1"
    using bb by (simp_all add: lo_def hi_def)
  have sub: "{lo..hi} \<subseteq> live st" using bb(4) lo by (auto simp: hi_def live_iff)
  have fs: "capacity st' = capacity st" "idx st' = idx st" "num_elements st' = num_elements st"
    "cmp st' = cmp st" "mem_ok st' = mem_ok st" "hnd st' = hnd st3"
    "depth (s st') = depth (s st) + 1"
    "\<And>j. stack_item (s st') j = (if j = depth (s st) then h else stack_item (s st) j)"
    "\<And>i. item st' i = item st3 i" "\<And>i. index_reduce st' i = index_reduce st i"
    using f by (simp_all add: st'_def stack_push_True index_reduce_def)
  have pvin: "item st3 h \<in> item st ` {lo..hi}" using f(9) hb by auto
  then obtain j0 where j0: "lo \<le> j0" "j0 \<le> hi" "item st j0 = item st3 h" by auto
  have inb: "\<exists>j. lo \<le> j \<and> j \<le> hi \<and> item st j = item st3 i" if "lo \<le> i" "i \<le> hi" for i
  proof -
    have "item st3 i \<in> item st ` {lo..hi}" using f(9) that by auto
    then show ?thesis by auto
  qed
  have inv': "lst_inv st'"
  proof (rule lst_invI)
    show "is_pow2 (capacity st')" using d(1) fs by simp
    show "1 \<le> depth (s st')" using fs by simp
    show "0 \<le> idx st'" "idx st' < capacity st'" "0 \<le> num_elements st'"
      "num_elements st' \<le> capacity st'"
      using d fs by simp_all
    show "stack_item (s st') 0 = idx st' + num_elements st'" using d(7) fs dk by simp
    show "stack_item (s st') j < stack_item (s st') (j - 1)"
      if "1 \<le> j" "j < depth (s st')" for j
      using that d(8)[of j] fs dk hb hi by (cases "j = k + 1") auto
    show "idx st' \<le> stack_item (s st') (depth (s st') - 1)" using fs hb lo by simp
    show "hnd st' (item st' i) = index_reduce st' i"
      if "idx st' \<le> i" "i < idx st' + num_elements st'" for i
    proof -
      have "i \<in> live st3" using that fs f(7) by (simp add: live_iff)
      then show ?thesis using arr_invD(4)[OF f(8)] fs f(12) by simp
    qed
  next
    fix j i
    assume j: "1 \<le> j" "j < depth (s st')" and i: "idx st' \<le> i" "i < idx st' + num_elements st'"
    have il: "i \<in> live st" using i fs by (simp add: live_iff)
    have old: "i < stack_item (s st) j \<longrightarrow> cmp st (item st' i) (pivot_item st' j) \<le> 0"
      "stack_item (s st) j < i \<longrightarrow> 0 \<le> cmp st (item st' i) (pivot_item st' j)"
      if jk: "j < k + 1"
    proof -
      have q: "hi < stack_item (s st) j"
        using stack_decreasing[OF inv, of j k] jk dk hi by simp
      have ql: "stack_item (s st) j \<in> live st"
        using pivot_in_range[OF inv j(1)] jk dk by (simp add: live_iff)
      have pj: "pivot_item st' j = pivot_item st j"
        using f(10)[OF ql] q jk dk by (simp add: pivot_item_def fs)
      show "i < stack_item (s st) j \<longrightarrow> cmp st (item st' i) (pivot_item st' j) \<le> 0"
      proof (cases "i \<le> hi")
        case True
        from inb[of i] True i fs lo obtain i' where
          i': "lo \<le> i'" "i' \<le> hi" "item st i' = item st3 i" by auto
        have "cmp st (item st i') (pivot_item st j) \<le> 0"
          using d(11)[of j i'] i' j(1) jk dk q lo bb(4) hi_def by simp
        then show ?thesis using i' pj fs by simp
      next
        case False
        then have "item st3 i = item st i" using f(10)[OF il] by simp
        then show ?thesis using d(11)[of j i] i j(1) jk dk pj fs by simp
      qed
      show "stack_item (s st) j < i \<longrightarrow> 0 \<le> cmp st (item st' i) (pivot_item st' j)"
      proof
        assume a: "stack_item (s st) j < i"
        then have "item st3 i = item st i" using f(10)[OF il] q by simp
        then show "0 \<le> cmp st (item st' i) (pivot_item st' j)"
          using d(12)[of j i] i j(1) jk dk pj fs a by simp
      qed
    qed
    have new: "i < h \<longrightarrow> cmp st (item st' i) (item st3 h) \<le> 0"
      "h < i \<longrightarrow> 0 \<le> cmp st (item st' i) (item st3 h)"
    proof -
      show "i < h \<longrightarrow> cmp st (item st' i) (item st3 h) \<le> 0"
        using left[of i] i fs lo by simp
      show "h < i \<longrightarrow> 0 \<le> cmp st (item st' i) (item st3 h)"
      proof
        assume a: "h < i"
        show "0 \<le> cmp st (item st' i) (item st3 h)"
        proof (cases "i \<le> hi")
          case True
          then show ?thesis using right[of i] a fs by simp
        next
          case False
          then have e: "item st3 i = item st i" using f(10)[OF il] by simp
          have k1: "1 \<le> k"
          proof (rule ccontr)
            assume "\<not> 1 \<le> k"
            then have "k = 0" by simp
            then have "hi = idx st + num_elements st - 1" using hi d(7) by simp
            then show False using False i fs by simp
          qed
          have kd: "k < depth (s st)" using dk by simp
          have "cmp st (item st j0) (pivot_item st k) \<le> 0"
            using d(11)[OF k1 kd, of j0] j0 lo hi bb(4) hi_def by simp
          then have p1: "cmp st (item st3 h) (pivot_item st k) \<le> 0" using j0 by simp
          have "0 \<le> cmp st (item st i) (pivot_item st k)"
          proof (cases "i = stack_item (s st) k")
            case True
            then show ?thesis using cmp_ok_refl[OF c] by (simp add: pivot_item_def)
          next
            case f2: False
            then have "stack_item (s st) k < i" using False hi by simp
            then show ?thesis using d(12)[OF k1 kd, of i] i fs by simp
          qed
          then have "cmp st (pivot_item st k) (item st i) \<le> 0" using cmp_ok_flip[OF c] by simp
          then have "cmp st (item st3 h) (item st i) \<le> 0" using cmp_ok_trans[OF c p1] by simp
          then show ?thesis using cmp_ok_flip[OF c] e fs by simp
        qed
      qed
    qed
    have pn: "pivot_item st' (k + 1) = item st3 h" using fs dk by (simp add: pivot_item_def)
    show "i < stack_item (s st') j \<Longrightarrow> cmp st' (item st' i) (pivot_item st' j) \<le> 0"
      using old(1) new(1) j fs dk pn by (cases "j = k + 1") auto
    show "stack_item (s st') j < i \<Longrightarrow> 0 \<le> cmp st' (item st' i) (pivot_item st' j)"
      using old(2) new(2) j fs dk pn by (cases "j = k + 1") auto
  qed
  have res: "resident st' = resident st"
  proof -
    have "resident st' = resident st3"
      using fs(2,3,9) f(2,3) by (simp add: resident_def)
    then show ?thesis using shuffled_resident[OF sh sub] by simp
  qed
  have hf: "hnd st' y = hnd st y" if "y \<notin> resident st" for y
  proof -
    have "y \<notin> item st ` {lo..hi}" using that sub by (auto simp: resident_live)
    then show ?thesis using f(11) fs by simp
  qed
  show ?thesis
    using pt inv' fs(1-5,7) res hf hb left right fs(8,9)
    unfolding st'_def[symmetric] lo_def[symmetric] hi_def[symmetric]
    by (intro exI[of _ st'] exI[of _ h]) simp
qed

lemma same_env_refl [simp]: "same_env st st"
  by (simp add: same_env_def)


lemma same_env_simps [simp]:
  "same_env st (lst_move st1 l d) = same_env st st1"
  "same_env st (st1\<lparr>s := stk\<rparr>) = same_env st st1"
  "same_env st (st1\<lparr>idx := i\<rparr>) = same_env st st1"
  "same_env st (st1\<lparr>num_elements := n\<rparr>) = same_env st st1"
  "same_env st (st1\<lparr>hnd := hf\<rparr>) = same_env st st1"
  "same_env st (st1\<lparr>capacity := c\<rparr>) = same_env st st1"
  "same_env st (snd (rand st1)) = same_env st st1"
  "same_env st (lst_flatten st1 k) = same_env st st1"
  "same_env st (bucket_add st1 k d) = same_env st st1"
  "same_env st (lst_indices_reduce st1) = same_env st st1"
  "same_env st (bucket_delete st1 k d) = same_env st st1"
  "same_env st (snd (lst_expand st1)) = same_env st st1"
  "same_env st (snd (choose_pivot st1 lo hi)) = same_env st st1"
  "same_env st (snd (place_pivot st1 lo hi h pv)) = same_env st st1"
  by (simp_all add: same_env_def lst_flatten_eq bucket_add_def Let_def bucket_delete_def
      lst_expand_def)

lemma partition_env:
  assumes "partition st k = Some st'"
  shows "same_env st st'"
proof (cases "is_equivalent st (bucket_lwb st k) (bucket_upb st k)")
  case True
  then show ?thesis using assms by (auto simp: partition_def Let_def)
next
  case False
  define low where "low = bucket_lwb st k"
  define high where "high = bucket_upb st k"
  obtain pv st1 where cp: "choose_pivot st low high = (pv, st1)"
    by (cases "choose_pivot st low high")
  have e1: "same_env st st1" using same_env_simps(13)[of st st low high] by (simp add: cp)
  from assms False cp obtain st2 l h where
    hl: "hoare_loop st1 pv (low - 1) (high + 1) = Some (st2, l, h)"
    by (auto simp: partition_def Let_def low_def high_def split: if_splits option.splits)
  have e2: "same_env st st2" using hoare_loop_fields[OF hl] e1 by (simp add: same_env_def)
  obtain h2 st3 where pp: "place_pivot st2 low high h pv = (h2, st3)"
    by (cases "place_pivot st2 low high h pv")
  have e3: "same_env st st3" using same_env_simps(14)[of st st2 low high h pv] e2 by (simp add: pp)
  have "st' = st3\<lparr>s := snd (stack_push (mem_ok st3) (s st3) h2)\<rparr>"
    using assms False cp hl pp
    by (simp add: partition_def Let_def low_def high_def split: if_splits)
  then show ?thesis using e3 by simp
qed






section \<open>Claim C2: the partition\<close>



section \<open>The descent to the minimum\<close>

lemma lst_size_inv:
  assumes inv: "lst_inv st" and k: "1 \<le> k" "k < depth (s st)"
  shows "lst_size st k = stack_item (s st) k - idx st"
proof -
  note d = lst_invD[OF inv]
  have r: "\<And>i. index_reduce st i = i mod capacity st" using lst_inv_reduce[OF inv] .
  have b: "idx st \<le> stack_item (s st) k" "stack_item (s st) k < idx st + num_elements st"
    using pivot_in_range[OF inv k] .
  have ri: "idx st mod capacity st = idx st" using d(3,4) by simp
  show ?thesis
  proof (cases "stack_item (s st) k < capacity st")
    case True
    then have "stack_item (s st) k mod capacity st = stack_item (s st) k" using b d(3) by simp
    then show ?thesis using k b by (simp add: lst_size_def r ri Let_def)
  next
    case False
    then have "stack_item (s st) k mod capacity st = stack_item (s st) k - capacity st"
      using mod_second_window[of "capacity st" "stack_item (s st) k"] b d(4,6) by simp
    then show ?thesis using k b d(3,4,6) by (simp add: lst_size_def r ri Let_def)
  qed
qed

lemma peeked_refl: "lst_inv st \<Longrightarrow> peeked st st"
  by (simp add: peeked_def)

lemma peeked_trans: "peeked a b \<Longrightarrow> peeked b c \<Longrightarrow> peeked a c"
  unfolding peeked_def by auto

lemma peeked_partition:
  assumes inv: "lst_inv st" and c: "cmp_ok (cmp st)" and mem: "mem_ok st"
    and b: "is_bucket st k" and ne: "idx st < stack_item (s st) k"
  shows "\<exists>st1. partition st k = Some st1 \<and> peeked st st1 \<and>
           depth (s st1) = depth (s st) + 1 \<and>
           stack_item (s st1) (depth (s st)) < stack_item (s st) k"
proof -
  have lw: "bucket_lwb st k = idx st" using b by (simp add: bucket_lwb_def)
  have ne': "bucket_lwb st k \<le> bucket_upb st k" using ne by (simp add: lw bucket_upb_def)
  from partition_total[OF inv c mem b ne'] obtain st1 h where
    a: "partition st k = Some st1" "lst_inv st1" "capacity st1 = capacity st" "idx st1 = idx st"
      "num_elements st1 = num_elements st" "cmp st1 = cmp st" "mem_ok st1 = mem_ok st"
      "depth (s st1) = depth (s st) + 1"
      "\<forall>j < depth (s st). stack_item (s st1) j = stack_item (s st) j"
      "stack_item (s st1) (depth (s st)) = h" "h \<le> bucket_upb st k"
      "resident st1 = resident st" "\<forall>y. y \<notin> resident st \<longrightarrow> hnd st1 y = hnd st y"
    by blast
  have "peeked st st1" unfolding peeked_def using a by simp
  moreover have "stack_item (s st1) (depth (s st)) < stack_item (s st) k"
    using a(10,11) by (simp add: bucket_upb_def)
  ultimately show ?thesis using a(1,8) by blast
qed

text \<open>
  \<open>_lst_peek\<close> and \<open>_lst_pop\<close> go down the same way; \<open>_lst_pop\<close> then flattens and
  deletes. Both return, by induction on the size of the leftmost bucket and the number
  of pivots below the stack index.
\<close>

lemma descent_total:
  assumes c: "cmp_ok c0"
  shows "lst_inv st \<Longrightarrow> cmp st = c0 \<Longrightarrow> mem_ok st \<Longrightarrow> k < depth (s st) \<Longrightarrow>
         idx st < stack_item (s st) k \<Longrightarrow>
         \<exists>st'. peeked st st' \<and> k + 2 \<le> depth (s st') \<and>
           stack_item (s st') (depth (s st') - 1) = idx st \<and>
           u_lst_peek st k = Some (item st' (idx st), st') \<and>
           u_lst_pop st k =
             Some (item st' (idx st),
                   bucket_delete (lst_flatten st' (depth (s st') - 1)) (depth (s st') - 1)
                     (item st' (idx st)))"
proof (induction "nat (stack_item (s st) (depth (s st) - 1) - idx st) + (depth (s st) - 1 - k)"
    arbitrary: st k rule: less_induct)
  case less
  note inv = less.prems(1) and cm = less.prems(2) and mem = less.prems(3)
    and k = less.prems(4) and ne = less.prems(5)
  define st1opt where "st1opt = (if is_bucket st k then partition st k else Some st)"
  have "\<exists>st1. st1opt = Some st1 \<and> peeked st st1 \<and> k + 2 \<le> depth (s st1) \<and>
          nat (stack_item (s st1) (depth (s st1) - 1) - idx st1) + (depth (s st1) - 1 - (k + 1))
            < nat (stack_item (s st) (depth (s st) - 1) - idx st) + (depth (s st) - 1 - k)"
  proof (cases "is_bucket st k")
    case True
    then have dk: "depth (s st) = k + 1" using k by (simp add: is_bucket_def lst_length_def stack_depth_def)
    from peeked_partition[OF inv _ mem True ne] c cm obtain st1 where
      a: "partition st k = Some st1" "peeked st st1" "depth (s st1) = depth (s st) + 1"
        "stack_item (s st1) (depth (s st)) < stack_item (s st) k"
      by auto
    have "idx st1 = idx st" using a(2) by (simp add: peeked_def)
    moreover have "idx st \<le> stack_item (s st1) (depth (s st))"
      using stack_lower[of st1 "depth (s st)"] a(2,3) by (simp add: peeked_def)
    ultimately show ?thesis using a True dk by (simp add: st1opt_def)
  next
    case False
    then have "k + 2 \<le> depth (s st)" using k
      by (simp add: is_bucket_def lst_length_def stack_depth_def)
    then show ?thesis using False peeked_refl[OF inv] by (simp add: st1opt_def)
  qed
  then obtain st1 where s1: "st1opt = Some st1" and pk: "peeked st st1"
    and d1: "k + 2 \<le> depth (s st1)"
    and ms: "nat (stack_item (s st1) (depth (s st1) - 1) - idx st1) + (depth (s st1) - 1 - (k + 1))
            < nat (stack_item (s st) (depth (s st) - 1) - idx st) + (depth (s st) - 1 - k)"
    by blast
  have inv1: "lst_inv st1" and i1: "idx st1 = idx st" and c1: "cmp st1 = c0" and m1: "mem_ok st1"
    using pk cm mem by (simp_all add: peeked_def)
  have sz: "lst_size st1 (k + 1) = stack_item (s st1) (k + 1) - idx st"
    using lst_size_inv[OF inv1, of "k + 1"] d1 i1 by simp
  have lo: "idx st \<le> stack_item (s st1) (k + 1)"
    using stack_lower[OF inv1, of "k + 1"] d1 i1 by simp
  have pe: "u_lst_peek st k =
      (if lst_size st1 (k + 1) = 0 then Some (pivot_item st1 (k + 1), st1)
       else u_lst_peek st1 (k + 1))"
    using s1 unfolding st1opt_def by (subst u_lst_peek.simps) simp
  have po: "u_lst_pop st k =
      (if lst_size st1 (k + 1) = 0
       then Some (pivot_item st1 (k + 1),
                  bucket_delete (lst_flatten st1 (k + 1)) (k + 1) (pivot_item st1 (k + 1)))
       else u_lst_pop st1 (k + 1))"
    using s1 unfolding st1opt_def by (subst u_lst_pop.simps) (simp add: Let_def)
  show ?case
  proof (cases "stack_item (s st1) (k + 1) = idx st")
    case True
    have "depth (s st1) - 1 = k + 1"
    proof (rule ccontr)
      assume "depth (s st1) - 1 \<noteq> k + 1"
      then have "k + 1 < depth (s st1) - 1" using d1 by simp
      then have "stack_item (s st1) (depth (s st1) - 1) < stack_item (s st1) (k + 1)"
        using stack_strict[OF inv1, of "k + 1" "depth (s st1) - 1"] d1 by simp
      then show False using stack_lower[OF inv1, of "depth (s st1) - 1"] True i1 d1 by simp
    qed
    then show ?thesis using pe po sz True pk d1
      by (intro exI[of _ st1]) (simp add: pivot_item_def)
  next
    case False
    then have ne1: "idx st1 < stack_item (s st1) (k + 1)" using lo i1 by simp
    have k1: "k + 1 < depth (s st1)" using d1 by simp
    from less.hyps[OF ms inv1 c1 m1 k1 ne1] obtain st' where
      a: "peeked st1 st'" "k + 1 + 2 \<le> depth (s st')"
        "stack_item (s st') (depth (s st') - 1) = idx st1"
        "u_lst_peek st1 (k + 1) = Some (item st' (idx st1), st')"
        "u_lst_pop st1 (k + 1) =
           Some (item st' (idx st1),
                 bucket_delete (lst_flatten st' (depth (s st') - 1)) (depth (s st') - 1)
                   (item st' (idx st1)))"
      by blast
    show ?thesis using pe po sz False a peeked_trans[OF pk a(1)] i1
      by (intro exI[of _ st']) simp
  qed
qed

section \<open>Removal of the record at idx\<close>

lemma lst_inv_sub:
  assumes inv: "lst_inv st"
    and cap: "capacity st' = capacity st"
    and ix: "0 \<le> idx st'" "idx st' < capacity st'"
    and n: "0 \<le> num_elements st'"
    and win: "idx st \<le> idx st' + dl" "idx st' + dl + num_elements st' \<le> idx st + num_elements st"
    and dp: "1 \<le> depth (s st')" "depth (s st') \<le> depth (s st)"
    and s0: "stack_item (s st') 0 = idx st' + num_elements st'"
    and stk: "\<And>k. 1 \<le> k \<Longrightarrow> k < depth (s st') \<Longrightarrow> stack_item (s st') k + dl = stack_item (s st) k"
    and stk0: "stack_item (s st') 0 + dl \<le> stack_item (s st) 0"
    and s1: "1 < depth (s st') \<Longrightarrow> stack_item (s st) 1 < stack_item (s st') 0 + dl"
    and low: "idx st' \<le> stack_item (s st') (depth (s st') - 1)"
    and c: "cmp st' = cmp st"
    and it: "\<And>i. idx st' \<le> i \<Longrightarrow> i < idx st' + num_elements st' \<Longrightarrow> item st' i = item st (i + dl)"
    and h: "\<And>i. idx st' \<le> i \<Longrightarrow> i < idx st' + num_elements st' \<Longrightarrow>
               hnd st' (item st' i) = index_reduce st' i"
  shows "lst_inv st'"
proof (rule lst_invI)
  note d = lst_invD[OF inv]
  show "is_pow2 (capacity st')" using d(1) cap by simp
  show "1 \<le> depth (s st')" by fact
  show "0 \<le> idx st'" "idx st' < capacity st'" "0 \<le> num_elements st'" by fact+
  show "num_elements st' \<le> capacity st'" using win d(6) cap by simp
  show "stack_item (s st') 0 = idx st' + num_elements st'" by fact
  show dec: "stack_item (s st') k < stack_item (s st') (k - 1)"
    if "1 \<le> k" "k < depth (s st')" for k
  proof (cases "k = 1")
    case True
    then show ?thesis using s1 stk[of 1] that by simp
  next
    case False
    then have "1 \<le> k - 1" "k - 1 < depth (s st')" using that by simp_all
    from stk[OF this] show ?thesis using stk[of k] d(8)[of k] that dp by simp
  qed
  show "idx st' \<le> stack_item (s st') (depth (s st') - 1)" by fact
  show "hnd st' (item st' i) = index_reduce st' i"
    if "idx st' \<le> i" "i < idx st' + num_elements st'" for i
    using h that by simp
  have pos: "idx st' \<le> stack_item (s st') k \<and> stack_item (s st') k < idx st' + num_elements st'"
    if "1 \<le> k" "k < depth (s st')" for k
  proof -
    have "stack_item (s st) (depth (s st') - 1) \<le> stack_item (s st) k"
      using stack_decreasing[OF inv, of k "depth (s st') - 1"] that dp by simp
    moreover have "1 \<le> depth (s st') - 1" "depth (s st') - 1 < depth (s st')" using that by simp_all
    ultimately have "stack_item (s st') (depth (s st') - 1) \<le> stack_item (s st') k"
      using stk[of k] stk[of "depth (s st') - 1"] that by simp
    moreover have "stack_item (s st) k \<le> stack_item (s st) 1"
      using stack_decreasing[OF inv, of 1 k] that dp by simp
    then have "stack_item (s st') k < stack_item (s st') 0"
      using s1 stk[of k] that by simp
    ultimately show ?thesis using low s0 by simp
  qed
  have pv: "pivot_item st' k = pivot_item st k" if "1 \<le> k" "k < depth (s st')" for k
    using it[of "stack_item (s st') k"] pos[OF that] stk[OF that] by (simp add: pivot_item_def)
  show "cmp st' (item st' i) (pivot_item st' k) \<le> 0"
    if "1 \<le> k" "k < depth (s st')" "idx st' \<le> i" "i < idx st' + num_elements st'"
      "i < stack_item (s st') k" for k i
    using d(11)[of k "i + dl"] that it[of i] pv[of k] stk[of k] win dp c by simp
  show "0 \<le> cmp st' (item st' i) (pivot_item st' k)"
    if "1 \<le> k" "k < depth (s st')" "idx st' \<le> i" "i < idx st' + num_elements st'"
      "stack_item (s st') k < i" for k i
    using d(12)[of k "i + dl"] that it[of i] pv[of k] stk[of k] win dp c by simp
qed

lemma stack_item_depth [simp]: "stack_item (stk\<lparr>depth := k\<rparr>) j = stack_item stk j"
  by (simp add: stack_item_def)

lemma item_shift:
  assumes "pow2 (capacity st)"
  shows "item st (i + capacity st) = item st i"
  using assms by (simp add: item_mod)

lemma pop_front:
  assumes inv: "lst_inv st" and d2: "2 \<le> depth (s st)"
    and top: "stack_item (s st) (depth (s st) - 1) = idx st"
  defines "m \<equiv> item st (idx st)"
  defines "st' \<equiv> bucket_delete (lst_flatten st (depth (s st) - 1)) (depth (s st) - 1) m"
  shows "lst_inv st'" "m \<in> resident st" "resident st' = resident st - {m}"
    "num_elements st' = num_elements st - 1" "hnd st' = (hnd st)(m := - 1)"
    "capacity st' = capacity st" "cmp st' = cmp st" "mem_ok st' = mem_ok st"
    "\<And>y. y \<in> resident st \<Longrightarrow> y \<noteq> m \<Longrightarrow> 0 \<le> cmp st y m"
    "depth (s st') = depth (s st) - 1"
proof -
  note d = lst_invD[OF inv]
  have pw: "pow2 (capacity st)" using lst_inv_pow2[OF inv] .
  have r: "\<And>i. index_reduce st i = i mod capacity st" using lst_inv_reduce[OF inv] .
  have n1: "1 \<le> num_elements st"
    using stack_strict[OF inv, of 0 "depth (s st) - 1"] d2 top d(7) by simp
  have hm: "hnd st m = idx st" using d(10)[of "idx st"] n1 d(3,4) by (simp add: m_def r)
  define dl where "dl = (if idx st + 1 = capacity st then capacity st else 0)"
  have eq0: "((idx st + 1) mod capacity st = 0) = (idx st + 1 = capacity st)"
  proof (cases "idx st + 1 = capacity st")
    case True
    then show ?thesis by simp
  next
    case False
    then have "(idx st + 1) mod capacity st = idx st + 1" using d(3,4) by simp
    then show ?thesis using False d(3) by simp
  qed
  define stA where "stA = (lst_flatten st (depth (s st) - 1))\<lparr>idx := idx st + 1\<rparr>"
  have rA: "\<And>i. index_reduce stA i = index_reduce st i"
    by (simp add: stA_def lst_flatten_eq index_reduce_def)
  define stB where "stB = (if idx st + 1 = capacity st then lst_indices_reduce stA else stA)"
  have st'_eq: "st' = stB\<lparr>num_elements := num_elements stB - 1,
                           hnd := (hnd (stB\<lparr>num_elements := num_elements stB - 1\<rparr>))(m := - 1)\<rparr>"
    unfolding st'_def bucket_delete_def stB_def stA_def
    using hm eq0 d(3)
    by (simp add: Let_def item_index_def is_equivalent_def lst_flatten_eq r index_reduce_def[of "_\<lparr>s := _\<rparr>"]
        index_reduce_def[of "_\<lparr>idx := _\<rparr>"] flip: index_reduce_def[of st])
  have fB: "capacity stB = capacity st" "idx stB = idx st + 1 - dl"
    "num_elements stB = num_elements st" "cmp stB = cmp st" "mem_ok stB = mem_ok st"
    "p stB = p st" "hnd stB = hnd st" "depth (s stB) = depth (s st) - 1"
    using eq0 by (simp_all add: stB_def stA_def dl_def lst_flatten_eq rA r)
  have sB: "stack_item (s stB) j = stack_item (s st) j - dl" if "j < depth (s st) - 1" for j
    using that eq0 by (simp add: stB_def stA_def dl_def lst_flatten_eq rA r)
  have f': "capacity st' = capacity st" "idx st' = idx st + 1 - dl"
    "num_elements st' = num_elements st - 1" "cmp st' = cmp st" "mem_ok st' = mem_ok st"
    "p st' = p st" "hnd st' = (hnd st)(m := - 1)" "depth (s st') = depth (s st) - 1"
    "s st' = s stB"
    using fB by (simp_all add: st'_eq)
  have it: "item st' i = item st (i + dl)" for i
    using pw f'(1,6) by (simp add: item_mod dl_def)
  have r': "index_reduce st' i = index_reduce st i" for i
    using f'(1) by (simp add: index_reduce_def)
  show "capacity st' = capacity st" "cmp st' = cmp st" "mem_ok st' = mem_ok st"
    "num_elements st' = num_elements st - 1" "hnd st' = (hnd st)(m := - 1)"
    "depth (s st') = depth (s st) - 1"
    by (fact f')+
  show mres: "m \<in> resident st" using n1 by (auto simp: resident_def m_def)
  have ne: "item st i \<noteq> m" if "idx st < i" "i < idx st + num_elements st" for i
    using lst_inv_item_inj[OF inv, of i "idx st"] that n1 by (auto simp: m_def)
  show "lst_inv st'"
  proof (rule lst_inv_sub[OF inv, where dl = dl])
    show "capacity st' = capacity st" by fact
    show "0 \<le> idx st'" "idx st' < capacity st'" using d(3,4) f'(1,2) by (simp_all add: dl_def)
    show "0 \<le> num_elements st'" using n1 f'(3) by simp
    show "idx st \<le> idx st' + dl" "idx st' + dl + num_elements st' \<le> idx st + num_elements st"
      using f'(2,3) by simp_all
    show "1 \<le> depth (s st')" "depth (s st') \<le> depth (s st)" using d2 f'(8) by simp_all
    show "stack_item (s st') 0 = idx st' + num_elements st'"
      using sB[of 0] d2 d(7) f'(2,3,9) by simp
    show "stack_item (s st') k + dl = stack_item (s st) k" if "1 \<le> k" "k < depth (s st')" for k
      using sB[of k] that f'(8,9) by simp
    show "stack_item (s st') 0 + dl \<le> stack_item (s st) 0" using sB[of 0] d2 f'(9) by simp
    show "stack_item (s st) 1 < stack_item (s st') 0 + dl" if "1 < depth (s st')"
      using sB[of 0] d2 f'(9) d(8)[of 1] by simp
    show "idx st' \<le> stack_item (s st') (depth (s st') - 1)"
    proof -
      have a: "depth (s st) - 2 < depth (s st) - 1" "1 \<le> depth (s st) - 1"
        "depth (s st) - 1 < depth (s st)" "depth (s st) - 1 - 1 = depth (s st) - 2"
        using d2 by simp_all
      have "idx st < stack_item (s st) (depth (s st) - 2)"
        using d(8)[OF a(2,3)] top a(4) by simp
      then show ?thesis using sB[OF a(1)] f'(2,8,9) a(4) by simp
    qed
    show "cmp st' = cmp st" by fact
    show "item st' i = item st (i + dl)" for i by (rule it)
    show "hnd st' (item st' i) = index_reduce st' i"
      if "idx st' \<le> i" "i < idx st' + num_elements st'" for i
    proof -
      have b: "idx st < i + dl" "i + dl < idx st + num_elements st" using that f'(2,3) by simp_all
      have "index_reduce st (i + dl) = index_reduce st i" by (simp add: r dl_def)
      then show ?thesis using ne[OF b] d(10)[of "i + dl"] b by (simp add: it f'(7) r')
    qed
  qed
  show "resident st' = resident st - {m}"
  proof -
    have "resident st' = item st ` {idx st + 1..<idx st + num_elements st}" (is "_ = ?R")
      unfolding resident_def
    proof
      show "item st' ` {idx st'..<idx st' + num_elements st'} \<subseteq> ?R"
      proof
        fix y assume "y \<in> item st' ` {idx st'..<idx st' + num_elements st'}"
        then obtain i where i: "idx st' \<le> i" "i < idx st' + num_elements st'" "y = item st (i + dl)"
          by (auto simp: it)
        then have "i + dl \<in> {idx st + 1..<idx st + num_elements st}" using f'(2,3) by simp
        then show "y \<in> ?R" using i(3) by blast
      qed
      show "?R \<subseteq> item st' ` {idx st'..<idx st' + num_elements st'}"
      proof
        fix y assume "y \<in> ?R"
        then obtain i where i: "idx st + 1 \<le> i" "i < idx st + num_elements st" "y = item st i"
          by auto
        then have "i - dl \<in> {idx st'..<idx st' + num_elements st'}" using f'(2,3) by simp
        moreover have "item st' (i - dl) = y" using i by (simp add: it)
        ultimately show "y \<in> item st' ` {idx st'..<idx st' + num_elements st'}" by blast
      qed
    qed
    moreover have "{idx st..<idx st + num_elements st} = insert (idx st) {idx st + 1..<idx st + num_elements st}"
      using n1 by auto
    then have "resident st = insert m (item st ` {idx st + 1..<idx st + num_elements st})"
      by (simp add: resident_def m_def)
    moreover have "m \<notin> item st ` {idx st + 1..<idx st + num_elements st}"
    proof
      assume "m \<in> item st ` {idx st + 1..<idx st + num_elements st}"
      then obtain i where "idx st + 1 \<le> i" "i < idx st + num_elements st" "item st i = m" by auto
      then show False using ne[of i] by simp
    qed
    ultimately show ?thesis by simp
  qed
  show "0 \<le> cmp st y m" if "y \<in> resident st" "y \<noteq> m" for y
  proof -
    from that obtain i where i: "idx st \<le> i" "i < idx st + num_elements st" "y = item st i"
      by (auto simp: resident_def)
    have pm: "pivot_item st (depth (s st) - 1) = m" using top by (simp add: pivot_item_def m_def)
    show ?thesis
    proof (cases "i = idx st")
      case True
      then show ?thesis using that i by (simp add: m_def)
    next
      case False
      then show ?thesis using d(12)[of "depth (s st) - 1" i] i d2 top pm by simp
    qed
  qed
qed

section \<open>lst\_peek and lst\_pop\<close>



lemma lst_pop_total:
  assumes inv: "lst_inv st" and c: "cmp_ok (cmp st)" and mem: "mem_ok st"
    and ne: "num_elements st \<noteq> 0"
  shows "\<exists>m st'. lst_pop st = Some (Some m, st') \<and> lst_inv st' \<and>
           m \<in> resident st \<and> resident st' = resident st - {m} \<and>
           num_elements st' = num_elements st - 1 \<and> capacity st' = capacity st \<and>
           cmp st' = cmp st \<and> mem_ok st' = mem_ok st \<and>
           hnd st' m = - 1 \<and> (\<forall>y. y \<notin> resident st \<longrightarrow> hnd st' y = hnd st y) \<and>
           (\<forall>y \<in> resident st. cmp st m y \<le> 0)"
proof -
  note d = lst_invD[OF inv]
  have "idx st < stack_item (s st) 0" "0 < depth (s st)" using d(2,5,7) ne by simp_all
  from descent_total[OF c inv refl mem this(2,1)] obtain st1 where
    a: "peeked st st1" "0 + 2 \<le> depth (s st1)" "stack_item (s st1) (depth (s st1) - 1) = idx st"
      "u_lst_pop st 0 =
         Some (item st1 (idx st),
               bucket_delete (lst_flatten st1 (depth (s st1) - 1)) (depth (s st1) - 1)
                 (item st1 (idx st)))"
    by blast
  have p: "lst_inv st1" "idx st1 = idx st" "capacity st1 = capacity st" "cmp st1 = cmp st"
    "mem_ok st1 = mem_ok st" "resident st1 = resident st"
    "num_elements st1 = num_elements st" "\<And>y. y \<notin> resident st \<Longrightarrow> hnd st1 y = hnd st y"
    using a(1) by (simp_all add: peeked_def)
  define m where "m = item st1 (idx st1)"
  define st' where "st' = bucket_delete (lst_flatten st1 (depth (s st1) - 1)) (depth (s st1) - 1) m"
  have top: "stack_item (s st1) (depth (s st1) - 1) = idx st1" using a(3) p(2) by simp
  have d2: "2 \<le> depth (s st1)" using a(2) by simp
  note f = pop_front[OF p(1) d2 top, folded m_def, folded st'_def]
  have "lst_pop st = Some (Some m, st')"
    using a(4) ne by (simp add: lst_pop_def m_def st'_def p(2))
  moreover have "cmp st m y \<le> 0" if "y \<in> resident st" for y
  proof (cases "y = m")
    case True
    then show ?thesis using cmp_ok_refl[OF c] by simp
  next
    case False
    then have "0 \<le> cmp st y m" using f(9)[of y] that p(4,6) by simp
    then show ?thesis using cmp_ok_flip[OF c, of y m] by simp
  qed
  moreover have "hnd st' y = hnd st y" if "y \<notin> resident st" for y
    using that f(2,5) p(6,8) by auto
  ultimately show ?thesis using f p
    by (intro exI[of _ m] exI[of _ st']) simp
qed

section \<open>Claim C10: what lst\_peek leaves unchanged\<close>



section \<open>Claim C7: lst\_peek, then lst\_pop\<close>



section \<open>bucket\_add\<close>

lemma addingD:
  assumes "adding st0 st r"
  shows "capacity st = capacity st0" "idx st = idx st0" "num_elements st = num_elements st0"
    "cmp st = cmp st0" "mem_ok st = mem_ok st0" "depth (s st) = depth (s st0)"
    "\<And>j. stack_item (s st) j =
            (if j < r then stack_item (s st0) j + 1 else stack_item (s st0) j)"
    "\<And>i. idx st0 \<le> i \<Longrightarrow> i < stack_item (s st0) r \<Longrightarrow> item st i = item st0 i"
    "\<And>i. idx st0 \<le> i \<Longrightarrow> i < stack_item (s st0) r \<Longrightarrow>
          hnd st (item st0 i) = hnd st0 (item st0 i)"
    "\<And>i. stack_item (s st0) r < i \<Longrightarrow> i \<le> idx st0 + num_elements st0 \<Longrightarrow>
          hnd st (item st i) = index_reduce st0 i"
    "\<And>i. stack_item (s st0) r < i \<Longrightarrow> i \<le> idx st0 + num_elements st0 \<Longrightarrow>
          item st i \<in> item st0 ` {stack_item (s st0) r..<idx st0 + num_elements st0}"
    "\<And>i. stack_item (s st0) r \<le> i \<Longrightarrow> i < idx st0 + num_elements st0 \<Longrightarrow>
          item st0 i \<in> item st ` {stack_item (s st0) r<..idx st0 + num_elements st0}"
    "\<And>y. y \<notin> resident st0 \<Longrightarrow> hnd st y = hnd st0 y"
    "\<And>j. 1 \<le> j \<Longrightarrow> j \<le> r \<Longrightarrow>
          item st (stack_item (s st0) j + 1) = item st0 (stack_item (s st0) j)"
    "\<And>j i. 1 \<le> j \<Longrightarrow> j \<le> r \<Longrightarrow> stack_item (s st0) r < i \<Longrightarrow>
          i \<le> idx st0 + num_elements st0 \<Longrightarrow> i < stack_item (s st0) j + 1 \<Longrightarrow>
          cmp st0 (item st i) (item st0 (stack_item (s st0) j)) \<le> 0"
    "\<And>j i. 1 \<le> j \<Longrightarrow> j \<le> r \<Longrightarrow> stack_item (s st0) r < i \<Longrightarrow>
          i \<le> idx st0 + num_elements st0 \<Longrightarrow> stack_item (s st0) j + 1 < i \<Longrightarrow>
          0 \<le> cmp st0 (item st i) (item st0 (stack_item (s st0) j))"
  using assms unfolding adding_def by blast+

lemma addingI:
  assumes "capacity st = capacity st0" "idx st = idx st0" "num_elements st = num_elements st0"
    "cmp st = cmp st0" "mem_ok st = mem_ok st0" "depth (s st) = depth (s st0)"
    "\<And>j. stack_item (s st) j =
            (if j < r then stack_item (s st0) j + 1 else stack_item (s st0) j)"
    "\<And>i. idx st0 \<le> i \<Longrightarrow> i < stack_item (s st0) r \<Longrightarrow> item st i = item st0 i"
    "\<And>i. idx st0 \<le> i \<Longrightarrow> i < stack_item (s st0) r \<Longrightarrow>
          hnd st (item st0 i) = hnd st0 (item st0 i)"
    "\<And>i. stack_item (s st0) r < i \<Longrightarrow> i \<le> idx st0 + num_elements st0 \<Longrightarrow>
          hnd st (item st i) = index_reduce st0 i"
    "\<And>i. stack_item (s st0) r < i \<Longrightarrow> i \<le> idx st0 + num_elements st0 \<Longrightarrow>
          item st i \<in> item st0 ` {stack_item (s st0) r..<idx st0 + num_elements st0}"
    "\<And>i. stack_item (s st0) r \<le> i \<Longrightarrow> i < idx st0 + num_elements st0 \<Longrightarrow>
          item st0 i \<in> item st ` {stack_item (s st0) r<..idx st0 + num_elements st0}"
    "\<And>y. y \<notin> resident st0 \<Longrightarrow> hnd st y = hnd st0 y"
    "\<And>j. 1 \<le> j \<Longrightarrow> j \<le> r \<Longrightarrow>
          item st (stack_item (s st0) j + 1) = item st0 (stack_item (s st0) j)"
    "\<And>j i. 1 \<le> j \<Longrightarrow> j \<le> r \<Longrightarrow> stack_item (s st0) r < i \<Longrightarrow>
          i \<le> idx st0 + num_elements st0 \<Longrightarrow> i < stack_item (s st0) j + 1 \<Longrightarrow>
          cmp st0 (item st i) (item st0 (stack_item (s st0) j)) \<le> 0"
    "\<And>j i. 1 \<le> j \<Longrightarrow> j \<le> r \<Longrightarrow> stack_item (s st0) r < i \<Longrightarrow>
          i \<le> idx st0 + num_elements st0 \<Longrightarrow> stack_item (s st0) j + 1 < i \<Longrightarrow>
          0 \<le> cmp st0 (item st i) (item st0 (stack_item (s st0) j))"
  shows "adding st0 st r"
  unfolding adding_def
  apply (intro conjI allI impI)
  using assms by (blast | simp)+

lemma adding_start:
  assumes "lst_inv st"
  shows "adding st st 0"
  by (rule addingI) (use lst_invD(7)[OF assms] in simp_all)

text \<open>Two logical indices of a window not longer than the capacity have different slots.\<close>

lemma reduce_eq_window:
  assumes "pow2 (capacity st)" "lo \<le> i" "i < lo + capacity st" "lo \<le> j" "j < lo + capacity st"
  shows "index_reduce st i = index_reduce st j \<longleftrightarrow> i = j"
  using mod_window_eq[of i "capacity st" j lo] assms by (auto simp: index_reduce_mod)

lemma adding_step:
  assumes inv: "lst_inv st0" and room: "num_elements st0 < capacity st0"
    and a: "adding st0 st r" and r: "r + 1 < depth (s st0)"
  shows "adding st0 (bucket_add_step st r) (r + 1)"
proof -
  note d = lst_invD[OF inv]
  note ad = addingD[OF a]
  have pw: "pow2 (capacity st0)" using lst_inv_pow2[OF inv] .
  define I where "I = idx st0"
  define n where "n = num_elements st0"
  define h where "h = stack_item (s st0) r"
  define pv where "pv = stack_item (s st0) (r + 1)"
  define q where "q = item st0 pv"
  define b where "b = item st0 (pv + 1)"
  define st' where "st' = bucket_add_step st r"
  have pvh: "pv < h" using d(8)[of "r + 1"] r by (simp add: pv_def h_def)
  have Ipv: "I \<le> pv" using stack_lower[OF inv, of "r + 1"] r by (simp add: pv_def I_def)
  have hn: "h \<le> I + n"
    using stack_decreasing[OF inv, of 0 r] r d(7) by (simp add: h_def I_def n_def)
  have Hj: "h \<le> stack_item (s st0) j" if "j \<le> r" for j
    using stack_decreasing[OF inv, of j r] that r by (simp add: h_def)
  have Hjn: "stack_item (s st0) j < I + n" if "1 \<le> j" "j \<le> r" for j
    using pivot_in_range(2)[OF inv, of j] that r by (simp add: I_def n_def)
  have red: "index_reduce st i = index_reduce st0 i" for i
    using ad(1) by (simp add: index_reduce_def)
  have req: "(index_reduce st0 i = index_reduce st0 j) = (i = j)"
    if "I \<le> i" "i \<le> I + n" "I \<le> j" "j \<le> I + n" for i j
    using reduce_eq_window[OF pw, of I i j] that room by (simp add: n_def)
  have inj0: "(item st0 i = item st0 j) = (i = j)"
    if "I \<le> i" "i < I + n" "I \<le> j" "j < I + n" for i j
    using lst_inv_item_inj[OF inv, of i j] that by (auto simp: I_def n_def)
  have sh: "stack_item (s st) r = h" "stack_item (s st) (r + 1) = pv"
    using ad(7) by (simp_all add: h_def pv_def)
  have iq: "item st pv = q" using ad(8)[of pv] Ipv pvh by (simp add: q_def I_def h_def)
  have ib: "item st (pv + 1) = b" if "h - pv \<noteq> 1"
    using ad(8)[of "pv + 1"] Ipv pvh that by (simp add: b_def I_def h_def)
  have e3: "index_reduce st0 pv \<noteq> index_reduce st0 h"
    using req[of pv h] Ipv pvh hn by simp
  define st2 where "st2 = (if h - pv \<noteq> 1
      then lst_move (st\<lparr>s := stack_set (s st) r (h + 1)\<rparr>) h b
      else st\<lparr>s := stack_set (s st) r (h + 1)\<rparr>)"
  have i2: "item st2 pv = q"
    using e3 iq by (simp add: st2_def item_lst_move red)
  have st'_eq: "st' = lst_move st2 (pv + 1) q"
  proof (cases "h - pv = 1")
    case True
    then show ?thesis
      unfolding st'_def bucket_add_step_def sh Let_def st2_def using iq by simp
  next
    case False
    then show ?thesis
      unfolding st'_def bucket_add_step_def sh Let_def st2_def using ib[OF False] i2
      by (simp add: st2_def)
  qed
  have r2: "index_reduce st2 i = index_reduce st0 i" for i
    by (simp add: st2_def red)
  have it2: "item st2 i = (if h - pv \<noteq> 1 \<and> i = h then b else item st i)"
    if "I \<le> i" "i \<le> I + n" for i
  proof -
    have e2: "(index_reduce st0 i = index_reduce st0 h) = (i = h)"
      using req[of i h] that Ipv pvh hn by simp
    show ?thesis by (simp add: st2_def item_lst_move red e2)
  qed
  have it': "item st' i = (if i = pv + 1 then q else if i = h then b else item st i)"
    if "I \<le> i" "i \<le> I + n" for i
  proof -
    have e1: "(index_reduce st0 i = index_reduce st0 (pv + 1)) = (i = pv + 1)"
      using req[of i "pv + 1"] that Ipv pvh hn by simp
    have "item st' i = (if i = pv + 1 then q else item st2 i)"
      by (simp add: st'_eq item_lst_move r2 e1)
    then show ?thesis using it2[OF that] by auto
  qed
  have hn': "hnd st' y = (if y = q then index_reduce st0 (pv + 1)
                          else if h - pv \<noteq> 1 \<and> y = b then index_reduce st0 h else hnd st y)" for y
    by (simp add: st'_eq hnd_lst_move r2 st2_def red)
  have qb: "q \<noteq> b" if "h - pv \<noteq> 1"
    using inj0[of pv "pv + 1"] Ipv pvh hn that by (simp add: q_def b_def)
  have src: "\<exists>i0. h \<le> i0 \<and> i0 < I + n \<and> item st i = item st0 i0" if "h < i" "i \<le> I + n" for i
    using ad(11)[of i] that by (auto simp: h_def I_def n_def)
  have nq: "item st0 i0 \<noteq> q" if "pv < i0" "i0 < I + n" for i0
    using inj0[of i0 pv] that Ipv by (simp add: q_def)
  have nb: "item st0 i0 \<noteq> b" if "I \<le> i0" "i0 < I + n" "i0 \<noteq> pv + 1" "h - pv \<noteq> 1" for i0
    using inj0[of i0 "pv + 1"] that Ipv pvh hn by (simp add: b_def)
  have stk: "stack_item (s st') j =
      (if j < r + 1 then stack_item (s st0) j + 1 else stack_item (s st0) j)" for j
    using ad(7)[of j] ad(7)[of r] by (simp add: st'_def)
  show ?thesis
    unfolding st'_def[symmetric]
  proof (rule addingI)
    show "capacity st' = capacity st0" "idx st' = idx st0" "num_elements st' = num_elements st0"
      "cmp st' = cmp st0" "mem_ok st' = mem_ok st0"
      using ad(1-5) by (simp_all add: st'_def)
    show "depth (s st') = depth (s st0)" using ad(6) by (simp add: st'_def)
    show "stack_item (s st') j =
      (if j < r + 1 then stack_item (s st0) j + 1 else stack_item (s st0) j)" for j
      by (rule stk)
    show "item st' i = item st0 i" if "idx st0 \<le> i" "i < stack_item (s st0) (r + 1)" for i
    proof -
      have i: "I \<le> i" "i < pv" using that by (simp_all add: I_def pv_def)
      then have "item st i = item st0 i" using ad(8)[of i] pvh by (simp add: I_def h_def)
      then show ?thesis using it'[of i] i pvh hn by simp
    qed
    show "hnd st' (item st0 i) = hnd st0 (item st0 i)"
      if "idx st0 \<le> i" "i < stack_item (s st0) (r + 1)" for i
    proof -
      have i: "I \<le> i" "i < pv" using that by (simp_all add: I_def pv_def)
      have "item st0 i \<noteq> q" using inj0[of i pv] i Ipv pvh hn by (simp add: q_def)
      moreover have "h - pv \<noteq> 1 \<Longrightarrow> item st0 i \<noteq> b" using nb[of i] i pvh hn by simp
      ultimately show ?thesis using ad(9)[of i] i pvh by (auto simp: hn' I_def h_def)
    qed
    show "hnd st' (item st' i) = index_reduce st0 i"
      if "stack_item (s st0) (r + 1) < i" "i \<le> idx st0 + num_elements st0" for i
    proof -
      have i: "pv < i" "i \<le> I + n" "I \<le> i" using that Ipv by (simp_all add: I_def pv_def n_def)
      consider "i = pv + 1" | "i = h" "h - pv \<noteq> 1" | "pv + 1 < i" "i < h" | "h < i"
        using i by fastforce
      then show ?thesis
      proof cases
        case 1
        then show ?thesis using it'[of i] i by (simp add: hn')
      next
        case 2
        then show ?thesis using it'[of i] i qb by (simp add: hn')
      next
        case 3
        then have "item st' i = item st0 i" using it'[of i] i ad(8)[of i] by (simp add: I_def h_def)
        moreover have "item st0 i \<noteq> q" using nq[of i] 3 i hn by simp
        moreover have "item st0 i \<noteq> b" using nb[of i] 3 i hn by simp
        moreover have "hnd st0 (item st0 i) = index_reduce st0 i"
          using d(10)[of i] i 3 hn by (simp add: I_def n_def)
        ultimately show ?thesis using ad(9)[of i] i 3 by (simp add: hn' I_def h_def)
      next
        case 4
        then have e: "item st' i = item st i" using it'[of i] i pvh by simp
        from src[OF 4 i(2)] obtain i0 where i0: "h \<le> i0" "i0 < I + n" "item st i = item st0 i0"
          by blast
        have "item st i \<noteq> q" using nq[of i0] i0 pvh by simp
        moreover have "h - pv \<noteq> 1 \<Longrightarrow> item st i \<noteq> b" using nb[of i0] i0 pvh Ipv by simp
        ultimately show ?thesis using ad(10)[of i] 4 i e by (auto simp: hn' I_def h_def n_def)
      qed
    qed
    show "item st' i \<in> item st0 ` {stack_item (s st0) (r + 1)..<idx st0 + num_elements st0}"
      if "stack_item (s st0) (r + 1) < i" "i \<le> idx st0 + num_elements st0" for i
    proof -
      have i: "pv < i" "i \<le> I + n" "I \<le> i" using that Ipv by (simp_all add: I_def pv_def n_def)
      have "\<exists>i0. pv \<le> i0 \<and> i0 < I + n \<and> item st' i = item st0 i0"
      proof -
        consider "i = pv + 1" | "i = h" "h - pv \<noteq> 1" | "pv + 1 < i" "i < h" | "h < i"
          using i by fastforce
        then show ?thesis
        proof cases
          case 1
          then show ?thesis using it'[of i] i pvh hn by (intro exI[of _ pv]) (simp add: q_def)
        next
          case 2
          then show ?thesis using it'[of i] i pvh hn by (intro exI[of _ "pv + 1"]) (simp add: b_def)
        next
          case 3
          then show ?thesis using it'[of i] i ad(8)[of i] hn
            by (intro exI[of _ i]) (simp add: I_def h_def)
        next
          case 4
          from src[OF 4 i(2)] obtain i0 where i0: "h \<le> i0" "i0 < I + n" "item st i = item st0 i0"
            by blast
          then show ?thesis using it'[of i] i 4 pvh by (intro exI[of _ i0]) simp
        qed
      qed
      then show ?thesis by (auto simp: pv_def I_def n_def)
    qed
    show "item st0 i \<in> item st' ` {stack_item (s st0) (r + 1)<..idx st0 + num_elements st0}"
      if "stack_item (s st0) (r + 1) \<le> i" "i < idx st0 + num_elements st0" for i
    proof -
      have i: "pv \<le> i" "i < I + n" "I \<le> i" using that Ipv by (simp_all add: I_def pv_def n_def)
      have "\<exists>i1. pv < i1 \<and> i1 \<le> I + n \<and> item st' i1 = item st0 i"
      proof -
        consider "i = pv" | "i = pv + 1" "h - pv \<noteq> 1" | "pv + 1 < i" "i < h" | "h \<le> i"
          using i by fastforce
        then show ?thesis
        proof cases
          case 1
          then show ?thesis using it'[of "pv + 1"] i pvh hn Ipv
            by (intro exI[of _ "pv + 1"]) (simp add: q_def)
        next
          case 2
          then show ?thesis using it'[of h] i pvh hn Ipv
            by (intro exI[of _ h]) (simp add: b_def)
        next
          case 3
          then show ?thesis using it'[of i] i ad(8)[of i] hn
            by (intro exI[of _ i]) (simp add: I_def h_def)
        next
          case 4
          from ad(12)[of i] 4 i obtain i1 where i1: "h < i1" "i1 \<le> I + n" "item st i1 = item st0 i"
            by (auto simp: h_def I_def n_def)
          then show ?thesis using it'[of i1] pvh Ipv by (intro exI[of _ i1]) simp
        qed
      qed
      then obtain i1 where "i1 \<in> {pv<..I + n}" "item st' i1 = item st0 i" by auto
      then have "item st0 i \<in> item st' ` {pv<..I + n}" by (metis imageI)
      then show ?thesis by (simp add: pv_def I_def n_def)
    qed
    show "hnd st' y = hnd st0 y" if "y \<notin> resident st0" for y
    proof -
      have "q \<in> resident st0" "b \<in> resident st0 \<or> h - pv = 1"
        using Ipv pvh hn by (auto simp: resident_def q_def b_def I_def n_def)
      then show ?thesis using that ad(13)[of y] by (auto simp: hn')
    qed
    show "item st' (stack_item (s st0) j + 1) = item st0 (stack_item (s st0) j)"
      if "1 \<le> j" "j \<le> r + 1" for j
    proof (cases "j = r + 1")
      case True
      then have "stack_item (s st0) j = pv" by (simp add: pv_def)
      then show ?thesis using it'[of "pv + 1"] Ipv pvh hn by (simp add: q_def)
    next
      case False
      then have j: "j \<le> r" using that by simp
      have "h < stack_item (s st0) j + 1" "stack_item (s st0) j + 1 \<le> I + n"
        using Hj[OF j] Hjn[OF that(1) j] by simp_all
      then show ?thesis using it'[of "stack_item (s st0) j + 1"] ad(14)[of j] j that(1) pvh Ipv
        by simp
    qed
    have ord: "(i < stack_item (s st0) j + 1 \<longrightarrow>
                  cmp st0 (item st' i) (item st0 (stack_item (s st0) j)) \<le> 0) \<and>
               (stack_item (s st0) j + 1 < i \<longrightarrow>
                  0 \<le> cmp st0 (item st' i) (item st0 (stack_item (s st0) j)))"
      if j: "1 \<le> j" "j \<le> r + 1" and i: "pv < i" "i \<le> I + n" for j i
    proof -
      have Ii: "I \<le> i" using i Ipv by simp
      have jd: "j < depth (s st0)" using j r by simp
      have pj: "pivot_item st0 j = item st0 (stack_item (s st0) j)" by (simp add: pivot_item_def)
      have lt: "cmp st0 (item st0 i0) (item st0 (stack_item (s st0) j)) \<le> 0"
        if "I \<le> i0" "i0 < stack_item (s st0) j" for i0
        using d(11)[of j i0] j(1) jd that pivot_in_range(2)[OF inv j(1) jd]
        by (simp add: pj I_def)
      have gt: "0 \<le> cmp st0 (item st0 i0) (item st0 (stack_item (s st0) j))"
        if "i0 < I + n" "stack_item (s st0) j < i0" for i0
        using d(12)[of j i0] j(1) jd that pivot_in_range(1)[OF inv j(1) jd]
        by (simp add: pj I_def n_def)
      have Hle: "pv \<le> stack_item (s st0) j"
        using stack_decreasing[OF inv, of j "r + 1"] j r by (simp add: pv_def)
      have Hr: "j \<le> r \<Longrightarrow> h \<le> stack_item (s st0) j" using Hj[of j] by simp
      have Hr1: "j = r + 1 \<Longrightarrow> stack_item (s st0) j = pv" by (simp add: pv_def)
      consider "i = pv + 1" | "i = h" "h - pv \<noteq> 1" | "pv + 1 < i" "i < h" | "h < i"
        using i by fastforce
      then show ?thesis
      proof cases
        case 1
        then have e: "item st' i = item st0 pv" using it'[of i] i Ii by (simp add: q_def)
        show ?thesis
        proof (cases "j = r + 1")
          case True
          then show ?thesis using 1 Hr1 by simp
        next
          case False
          then have "pv < stack_item (s st0) j" using Hr j pvh by simp
          then show ?thesis using lt[of pv] Ipv 1 e by simp
        qed
      next
        case 2
        then have e: "item st' i = item st0 (pv + 1)" using it'[of i] i Ii by (simp add: b_def)
        show ?thesis
        proof (cases "j = r + 1")
          case True
          then show ?thesis using gt[of "pv + 1"] 2 e Hr1 pvh hn by simp
        next
          case False
          then have "h \<le> stack_item (s st0) j" using Hr j by simp
          then show ?thesis using lt[of "pv + 1"] 2 e Ipv pvh by simp
        qed
      next
        case 3
        then have e: "item st' i = item st0 i" using it'[of i] i Ii ad(8)[of i] by (simp add: I_def h_def)
        show ?thesis
        proof (cases "j = r + 1")
          case True
          then show ?thesis using gt[of i] 3 e Hr1 hn by simp
        next
          case False
          then have "h \<le> stack_item (s st0) j" using Hr j by simp
          then show ?thesis using lt[of i] 3 e Ii by simp
        qed
      next
        case 4
        then have e: "item st' i = item st i" using it'[of i] i Ii pvh by simp
        show ?thesis
        proof (cases "j = r + 1")
          case True
          from src[OF 4 i(2)] obtain i0 where i0: "h \<le> i0" "i0 < I + n" "item st i = item st0 i0"
            by blast
          then show ?thesis using gt[of i0] True e Hr1 pvh 4 by simp
        next
          case False
          then have jr: "j \<le> r" using j by simp
          show ?thesis using ad(15)[of j i] ad(16)[of j i] jr j(1) 4 i e
            by (simp add: h_def I_def n_def)
        qed
      qed
    qed
    show "cmp st0 (item st' i) (item st0 (stack_item (s st0) j)) \<le> 0"
      if "1 \<le> j" "j \<le> r + 1" "stack_item (s st0) (r + 1) < i"
        "i \<le> idx st0 + num_elements st0" "i < stack_item (s st0) j + 1" for j i
      using ord[of j i] that by (simp add: pv_def I_def n_def)
    show "0 \<le> cmp st0 (item st' i) (item st0 (stack_item (s st0) j))"
      if "1 \<le> j" "j \<le> r + 1" "stack_item (s st0) (r + 1) < i"
        "i \<le> idx st0 + num_elements st0" "stack_item (s st0) j + 1 < i" for j i
      using ord[of j i] that by (simp add: pv_def I_def n_def)
  qed
qed

lemma adding_loop:
  assumes inv: "lst_inv st0" and room: "num_elements st0 < capacity st0"
  shows "adding st0 st r \<Longrightarrow> r \<le> K \<Longrightarrow> K < depth (s st0) \<Longrightarrow>
         adding st0 (bucket_add_loop st r K) K"
proof (induction st r K rule: bucket_add_loop.induct)
  case (1 st r K)
  show ?case
  proof (cases "r < K")
    case True
    then have "r + 1 < depth (s st0)" using 1(4) by simp
    from adding_step[OF inv room 1(2) this]
    have "adding st0 (bucket_add_loop (bucket_add_step st r) (r + 1) K) K"
      using 1(1)[OF True] True 1(4) by simp
    then show ?thesis using True by (subst bucket_add_loop.simps) simp
  next
    case False
    then have "r = K" using 1(3) by simp
    then show ?thesis using 1(2) by (subst bucket_add_loop.simps) simp
  qed
qed

text \<open>
  \<open>bucket_add\<close> with the stack index \<open>K\<close>, seen through a stack of depth \<open>D\<close>: the depth
  the stack has, or \<open>K\<close> itself when the subtree was flattened just before. The new
  record has to be on the right side of the pivots that remain.
\<close>

lemma bucket_add_correct:
  assumes inv: "lst_inv st0" and room: "num_elements st0 < capacity st0"
    and K: "K < depth (s st0)" and D: "1 \<le> D" "D \<le> depth (s st0)"
    and fresh: "x \<notin> resident st0"
    and ox: "\<And>j. 1 \<le> j \<Longrightarrow> j < D \<Longrightarrow>
               (j \<le> K \<longrightarrow> cmp st0 x (pivot_item st0 j) \<le> 0) \<and>
               (K < j \<longrightarrow> 0 \<le> cmp st0 x (pivot_item st0 j))"
  defines "st' \<equiv> lst_flatten (bucket_add st0 K x) D"
  shows "lst_inv st'" "resident st' = insert x (resident st0)"
    "num_elements st' = num_elements st0 + 1" "capacity st' = capacity st0"
    "idx st' = idx st0" "cmp st' = cmp st0" "mem_ok st' = mem_ok st0"
    "\<And>y. y \<notin> resident st0 \<Longrightarrow> y \<noteq> x \<Longrightarrow> hnd st' y = hnd st0 y"
    "depth (s st') = D"
proof -
  note d = lst_invD[OF inv]
  have pw: "pow2 (capacity st0)" using lst_inv_pow2[OF inv] .
  define I where "I = idx st0"
  define n where "n = num_elements st0"
  define h where "h = stack_item (s st0) K"
  define st1 where "st1 = bucket_add_loop st0 0 K"
  have a: "adding st0 st1 K"
    unfolding st1_def using adding_loop[OF inv room adding_start[OF inv] _ K] by simp
  note ad = addingD[OF a]
  have Ih: "I \<le> h" using stack_lower[OF inv K] by (simp add: I_def h_def)
  have hn: "h \<le> I + n"
    using stack_decreasing[OF inv, of 0 K] K d(7) by (simp add: h_def I_def n_def)
  have red1: "index_reduce st1 i = index_reduce st0 i" for i
    using ad(1) by (simp add: index_reduce_def)
  have req: "(index_reduce st0 i = index_reduce st0 j) = (i = j)"
    if "I \<le> i" "i \<le> I + n" "I \<le> j" "j \<le> I + n" for i j
    using reduce_eq_window[OF pw, of I i j] that room by (simp add: n_def)
  have sh: "stack_item (s st1) K = h" using ad(7)[of K] by (simp add: h_def)
  have f: "capacity st' = capacity st0" "idx st' = idx st0"
    "num_elements st' = num_elements st0 + 1" "cmp st' = cmp st0" "mem_ok st' = mem_ok st0"
    "depth (s st') = D"
    using ad(1-5)
    by (simp_all add: st'_def bucket_add_def Let_def lst_flatten_eq st1_def[symmetric])
  have red': "index_reduce st' i = index_reduce st0 i" for i
    using f(1) by (simp add: index_reduce_def)
  have stk: "stack_item (s st') j =
      (if j \<le> K then stack_item (s st0) j + 1 else stack_item (s st0) j)" for j
    using ad(7)[of j] sh
    by (auto simp: st'_def bucket_add_def Let_def lst_flatten_eq st1_def[symmetric] h_def)
  have it': "item st' i = (if i = h then x else item st1 i)" if "I \<le> i" "i \<le> I + n" for i
    using req[of i h] that Ih hn
    by (simp add: st'_def bucket_add_def Let_def lst_flatten_eq st1_def[symmetric] sh
        item_lst_move red1)
  have hn': "hnd st' y = (if y = x then index_reduce st0 h else hnd st1 y)" for y
    by (simp add: st'_def bucket_add_def Let_def lst_flatten_eq st1_def[symmetric] sh
        hnd_lst_move red1)
  have res0: "item st0 i \<in> resident st0" if "I \<le> i" "i < I + n" for i
    using that by (simp add: resident_def I_def n_def)
  have src: "\<exists>i0. h \<le> i0 \<and> i0 < I + n \<and> item st1 i = item st0 i0" if "h < i" "i \<le> I + n" for i
    using ad(11)[of i] that by (auto simp: h_def I_def n_def)
  have lft: "item st' i = item st0 i" if "I \<le> i" "i < h" for i
    using it'[of i] ad(8)[of i] that hn by (simp add: I_def h_def)
  have rgt: "item st' i = item st1 i" if "h < i" "i \<le> I + n" for i
    using it'[of i] that Ih by simp
  have inres: "item st' i \<in> insert x (resident st0)" if "I \<le> i" "i \<le> I + n" for i
  proof -
    consider "i < h" | "i = h" | "h < i" by fastforce
    then show ?thesis
    proof cases
      case 1
      then show ?thesis using lft[of i] res0[of i] that hn by simp
    next
      case 2
      then show ?thesis using it'[of i] that by simp
    next
      case 3
      from src[OF 3 that(2)] obtain i0 where "h \<le> i0" "i0 < I + n" "item st1 i = item st0 i0"
        by blast
      then show ?thesis using rgt[OF 3 that(2)] res0[of i0] Ih by simp
    qed
  qed
  show "capacity st' = capacity st0" "idx st' = idx st0"
    "num_elements st' = num_elements st0 + 1" "cmp st' = cmp st0" "mem_ok st' = mem_ok st0"
    "depth (s st') = D"
    by (fact f)+
  show "hnd st' y = hnd st0 y" if "y \<notin> resident st0" "y \<noteq> x" for y
    using that ad(13)[of y] by (simp add: hn')
  show "resident st' = insert x (resident st0)"
  proof
    show "resident st' \<subseteq> insert x (resident st0)"
    proof
      fix y assume "y \<in> resident st'"
      then obtain i where "I \<le> i" "i \<le> I + n" "y = item st' i"
        by (auto simp: resident_def f I_def n_def)
      then show "y \<in> insert x (resident st0)" using inres by simp
    qed
    show "insert x (resident st0) \<subseteq> resident st'"
    proof
      fix y assume y: "y \<in> insert x (resident st0)"
      have "\<exists>i. I \<le> i \<and> i \<le> I + n \<and> item st' i = y"
      proof (cases "y = x")
        case True
        then show ?thesis using it'[of h] Ih hn by (intro exI[of _ h]) simp
      next
        case False
        then obtain i0 where i0: "I \<le> i0" "i0 < I + n" "y = item st0 i0"
          using y by (auto simp: resident_def I_def n_def)
        show ?thesis
        proof (cases "i0 < h")
          case True
          then show ?thesis using lft[of i0] i0 by (intro exI[of _ i0]) simp
        next
          case False
          then obtain i1 where i1: "h < i1" "i1 \<le> I + n" "item st1 i1 = item st0 i0"
            using ad(12)[of i0] i0 by (auto simp: h_def I_def n_def)
          then show ?thesis using rgt[of i1] i0 Ih by (intro exI[of _ i1]) simp
        qed
      qed
      then obtain i where i: "I \<le> i" "i \<le> I + n" "item st' i = y" by blast
      then have "i \<in> {idx st'..<idx st' + num_elements st'}" by (simp add: f I_def n_def)
      then show "y \<in> resident st'" unfolding resident_def using i(3) by (metis imageI)
    qed
  qed
  have pv': "pivot_item st' k = pivot_item st0 k" if k: "1 \<le> k" "k < D" for k
  proof (cases "k \<le> K")
    case True
    have "h \<le> stack_item (s st0) k"
      using stack_decreasing[OF inv, of k K] True K by (simp add: h_def)
    moreover have "stack_item (s st0) k < I + n"
      using pivot_in_range(2)[OF inv, of k] k D by (simp add: I_def n_def)
    ultimately show ?thesis
      using rgt[of "stack_item (s st0) k + 1"] ad(14)[of k] True k
      by (simp add: pivot_item_def stk)
  next
    case False
    then have "stack_item (s st0) k < h"
      using stack_strict[OF inv, of K k] k D by (simp add: h_def)
    moreover have "I \<le> stack_item (s st0) k"
      using stack_lower[OF inv, of k] k D by (simp add: I_def)
    ultimately show ?thesis
      using lft[of "stack_item (s st0) k"] False by (simp add: pivot_item_def stk)
  qed
  have ord: "(i < stack_item (s st') k \<longrightarrow> cmp st0 (item st' i) (pivot_item st0 k) \<le> 0) \<and>
             (stack_item (s st') k < i \<longrightarrow> 0 \<le> cmp st0 (item st' i) (pivot_item st0 k))"
    if k: "1 \<le> k" "k < D" and i: "I \<le> i" "i \<le> I + n" for k i
  proof -
    have kd: "k < depth (s st0)" using k D by simp
    have pin: "I \<le> stack_item (s st0) k" "stack_item (s st0) k < I + n"
      using pivot_in_range[OF inv k(1) kd] by (simp_all add: I_def n_def)
    have lt: "cmp st0 (item st0 i0) (pivot_item st0 k) \<le> 0"
      if "I \<le> i0" "i0 < stack_item (s st0) k" for i0
      using d(11)[of k i0] k(1) kd that pin by (simp add: I_def n_def)
    have gt: "0 \<le> cmp st0 (item st0 i0) (pivot_item st0 k)"
      if "i0 < I + n" "stack_item (s st0) k < i0" for i0
      using d(12)[of k i0] k(1) kd that pin by (simp add: I_def n_def)
    show ?thesis
    proof (cases "k \<le> K")
      case True
      have hk: "h \<le> stack_item (s st0) k"
        using stack_decreasing[OF inv, of k K] True K by (simp add: h_def)
      have sk: "stack_item (s st') k = stack_item (s st0) k + 1" using True by (simp add: stk)
      consider "i < h" | "i = h" | "h < i" by fastforce
      then show ?thesis
      proof cases
        case 1
        then show ?thesis using lft[of i] lt[of i] i hk by (simp add: sk)
      next
        case 2
        then show ?thesis using it'[of i] i ox[OF k] True hk by (simp add: sk)
      next
        case 3
        then show ?thesis
          using rgt[of i] ad(15)[of k i] ad(16)[of k i] i k(1) True
          by (simp add: sk h_def I_def n_def pivot_item_def)
      qed
    next
      case False
      have hk: "stack_item (s st0) k < h"
        using stack_strict[OF inv, of K k] False kd by (simp add: h_def)
      have sk: "stack_item (s st') k = stack_item (s st0) k" using False by (simp add: stk)
      consider "i < h" | "i = h" | "h < i" by fastforce
      then show ?thesis
      proof cases
        case 1
        then show ?thesis using lft[of i] lt[of i] gt[of i] i hn by (simp add: sk)
      next
        case 2
        then show ?thesis using it'[of i] i ox[OF k] False hk by (simp add: sk)
      next
        case 3
        from src[OF 3 i(2)] obtain i0 where i0: "h \<le> i0" "i0 < I + n" "item st1 i = item st0 i0"
          by blast
        then show ?thesis using rgt[OF 3 i(2)] gt[of i0] hk 3 by (simp add: sk)
      qed
    qed
  qed
  show "lst_inv st'"
  proof (rule lst_invI)
    show "is_pow2 (capacity st')" using d(1) f(1) by simp
    show "1 \<le> depth (s st')" using D f(6) by simp
    show "0 \<le> idx st'" "idx st' < capacity st'" using d(3,4) f(1,2) by simp_all
    show "0 \<le> num_elements st'" "num_elements st' \<le> capacity st'"
      using d(5) room f(1,3) by simp_all
    show "stack_item (s st') 0 = idx st' + num_elements st'" using d(7) f(2,3) by (simp add: stk)
    show "stack_item (s st') k < stack_item (s st') (k - 1)"
      if "1 \<le> k" "k < depth (s st')" for k
      using d(8)[of k] that D f(6) by (auto simp: stk)
    show "idx st' \<le> stack_item (s st') (depth (s st') - 1)"
    proof -
      have "D - 1 < depth (s st0)" using D by simp
      from stack_lower[OF inv this] show ?thesis by (simp add: stk f)
    qed
    show "hnd st' (item st' i) = index_reduce st' i"
      if "idx st' \<le> i" "i < idx st' + num_elements st'" for i
    proof -
      have i: "I \<le> i" "i \<le> I + n" using that by (simp_all add: f I_def n_def)
      consider "i < h" | "i = h" | "h < i" by fastforce
      then show ?thesis
      proof cases
        case 1
        then have "item st0 i \<noteq> x" using res0[of i] i hn fresh by auto
        then show ?thesis
          using lft[of i] ad(9)[of i] d(10)[of i] i 1 hn
          by (simp add: hn' red' I_def n_def h_def)
      next
        case 2
        then show ?thesis using it'[of i] i by (simp add: hn' red')
      next
        case 3
        from src[OF 3 i(2)] obtain i0 where i0: "h \<le> i0" "i0 < I + n" "item st1 i = item st0 i0"
          by blast
        then have "item st1 i \<noteq> x" using res0[of i0] Ih fresh by auto
        then show ?thesis using rgt[OF 3 i(2)] ad(10)[of i] 3 i
          by (simp add: hn' red' I_def n_def h_def)
      qed
    qed
    show "cmp st' (item st' i) (pivot_item st' k) \<le> 0"
      if "1 \<le> k" "k < depth (s st')" "idx st' \<le> i" "i < idx st' + num_elements st'"
        "i < stack_item (s st') k" for k i
      using ord[of k i] pv'[of k] that by (simp add: f I_def n_def)
    show "0 \<le> cmp st' (item st' i) (pivot_item st' k)"
      if "1 \<le> k" "k < depth (s st')" "idx st' \<le> i" "i < idx st' + num_elements st'"
        "stack_item (s st') k < i" for k i
      using ord[of k i] pv'[of k] that by (simp add: f I_def n_def)
  qed
qed

section \<open>lst\_insert\<close>

lemma lst_flatten_depth: "depth (s st) = D \<Longrightarrow> lst_flatten st D = st"
  by (simp add: lst_flatten_eq)

lemma bucket_add_depth [simp]: "depth (s (bucket_add st K x)) = depth (s st)"
  by (simp add: bucket_add_def Let_def)

text \<open>\<open>bucket_add\<close> does not read the depth of the stack.\<close>

lemma bucket_add_step_flatten:
  "bucket_add_step (lst_flatten st D) r = lst_flatten (bucket_add_step st r) D"
  by (simp add: lst_flatten_eq bucket_add_step_def Let_def lst_move_def stack_set_def
      stack_item_def item_def index_reduce_def)

lemma bucket_add_loop_flatten:
  "bucket_add_loop (lst_flatten st D) r K = lst_flatten (bucket_add_loop st r K) D"
proof (induction st r K rule: bucket_add_loop.induct)
  case (1 st r K)
  show ?case
  proof (cases "r < K")
    case True
    then show ?thesis
      using 1[OF True]
      by (subst bucket_add_loop.simps, subst (2) bucket_add_loop.simps)
         (simp add: bucket_add_step_flatten)
  next
    case False
    then show ?thesis
      by (subst bucket_add_loop.simps, subst (2) bucket_add_loop.simps) simp
  qed
qed

lemma bucket_add_flatten:
  "bucket_add (lst_flatten st D) K x = lst_flatten (bucket_add st K x) D"
  unfolding bucket_add_def bucket_add_loop_flatten
  by (simp add: lst_flatten_eq Let_def lst_move_def stack_set_def stack_item_def item_def
      index_reduce_def)

lemma rand_inv [simp]:
  "lst_inv (snd (rand st)) = lst_inv st"
  "resident (snd (rand st)) = resident st"
  "pivot_item (snd (rand st)) k = pivot_item st k"
  "lst_size (snd (rand st)) k = lst_size st k"
  "is_bucket (snd (rand st)) k = is_bucket st k"
  by (simp_all add: rand_def lst_inv_def resident_def pivot_item_def lst_size_def is_bucket_def
      lst_length_def item_index_def Let_def)

lemma inserted_bucket_add:
  assumes inv: "lst_inv st0" and room: "num_elements st0 < capacity st0"
    and K: "K < depth (s st0)" and D: "1 \<le> D" "D \<le> depth (s st0)"
    and fresh: "x \<notin> resident st0"
    and ox: "\<And>j. 1 \<le> j \<Longrightarrow> j < D \<Longrightarrow>
               (j \<le> K \<longrightarrow> cmp st0 x (pivot_item st0 j) \<le> 0) \<and>
               (K < j \<longrightarrow> 0 \<le> cmp st0 x (pivot_item st0 j))"
  shows "inserted st0 x (lst_flatten (bucket_add st0 K x) D)"
  unfolding inserted_def
  using bucket_add_correct[OF inv room K D fresh ox] by simp

lemma inserted_rand: "inserted (snd (rand st)) x st' \<Longrightarrow> inserted st x st'"
  by (simp add: inserted_def)

lemma u_lst_insert_total:
  assumes c: "cmp_ok c0"
  shows "lst_inv st \<Longrightarrow> cmp st = c0 \<Longrightarrow> num_elements st < capacity st \<Longrightarrow>
         x \<notin> resident st \<Longrightarrow> k < depth (s st) \<Longrightarrow>
         (\<And>j. 1 \<le> j \<Longrightarrow> j \<le> k \<Longrightarrow> cmp st x (pivot_item st j) \<le> 0) \<Longrightarrow>
         \<exists>st'. u_lst_insert st k x = Some st' \<and> inserted st x st'"
proof (induction "depth (s st) - k" arbitrary: st k rule: less_induct)
  case less
  note inv = less.prems(1) and cm = less.prems(2) and room = less.prems(3)
    and fresh = less.prems(4) and k = less.prems(5) and lo = less.prems(6)
  show ?case
  proof (cases "is_bucket st k")
    case True
    then have dk: "depth (s st) = k + 1"
      using k by (simp add: is_bucket_def lst_length_def stack_depth_def)
    have "inserted st x (lst_flatten (bucket_add st k x) (depth (s st)))"
      by (rule inserted_bucket_add[OF inv room k _ _ fresh]) (use dk lo in auto)
    then have "inserted st x (bucket_add st k x)" by (simp add: lst_flatten_depth)
    moreover have "u_lst_insert st k x = Some (bucket_add st k x)"
      using True by (subst u_lst_insert.simps) simp
    ultimately show ?thesis by blast
  next
    case False
    then have dk: "k + 2 \<le> depth (s st)"
      using k by (simp add: is_bucket_def lst_length_def stack_depth_def)
    define st1 where "st1 = snd (rand st)"
    define r where "r = fst (rand st)"
    have rn: "rand st = (r, st1)" by (simp add: r_def st1_def)
    have f1: "lst_inv st1" "cmp st1 = c0" "num_elements st1 < capacity st1"
      "x \<notin> resident st1" "depth (s st1) = depth (s st)"
      "\<And>j. pivot_item st1 j = pivot_item st j"
      using inv cm room fresh by (simp_all add: st1_def)
    have sz: "lst_size st (k + 1) = stack_item (s st) (k + 1) - idx st"
      using lst_size_inv[OF inv, of "k + 1"] dk by simp
    have "idx st \<le> stack_item (s st) (k + 1)" using stack_lower[OF inv, of "k + 1"] dk by simp
    then have nz: "lst_size st (k + 1) + 1 \<noteq> 0" using sz by simp
    have sz1: "\<And>j. lst_size st1 j = lst_size st j" by (simp add: st1_def)
    have ins: "u_lst_insert st k x =
        (if c_rem r (lst_size st (k + 1) + 1) \<noteq> 0 then
           (if cmp st x (pivot_item st (k + 1)) < 0 then u_lst_insert st1 (k + 1) x
            else Some (bucket_add st1 k x))
         else Some (bucket_add (lst_flatten st1 (k + 1)) (k + 1) x))"
      using False nz by (subst u_lst_insert.simps) (simp add: rn sz1 f1(2,6) cm)
    consider (down) "c_rem r (lst_size st (k + 1) + 1) \<noteq> 0" "cmp st x (pivot_item st (k + 1)) < 0"
      | (here) "c_rem r (lst_size st (k + 1) + 1) \<noteq> 0" "\<not> cmp st x (pivot_item st (k + 1)) < 0"
      | (flat) "c_rem r (lst_size st (k + 1) + 1) = 0"
      by blast
    then show ?thesis
    proof cases
      case down
      have m: "depth (s st1) - (k + 1) < depth (s st) - k" using dk f1(5) by simp
      have k1: "k + 1 < depth (s st1)" using dk f1(5) by simp
      have lo1: "cmp st1 x (pivot_item st1 j) \<le> 0" if "1 \<le> j" "j \<le> k + 1" for j
      proof (cases "j = k + 1")
        case True
        then show ?thesis using down(2) f1(2,6) cm by simp
      next
        case False
        then show ?thesis using lo[of j] that f1(2,6) cm by simp
      qed
      from less.hyps[OF m f1(1,2,3,4) k1 lo1] obtain st' where
        "u_lst_insert st1 (k + 1) x = Some st'" "inserted st1 x st'"
        by blast
      then show ?thesis using ins down inserted_rand[of st x st'] by (simp add: st1_def)
    next
      case here
      have k1: "k < depth (s st1)" using k f1(5) by simp
      have ox: "(j \<le> k \<longrightarrow> cmp st1 x (pivot_item st1 j) \<le> 0) \<and>
                (k < j \<longrightarrow> 0 \<le> cmp st1 x (pivot_item st1 j))"
        if j: "1 \<le> j" "j < depth (s st1)" for j
      proof (cases "j \<le> k")
        case True
        then show ?thesis using lo[of j] j f1(2,6) cm by simp
      next
        case False
        have "cmp st (pivot_item st j) (pivot_item st (k + 1)) \<le> 0"
        proof (cases "j = k + 1")
          case True
          then show ?thesis using cmp_ok_refl[OF c] cm by simp
        next
          case nk: False
          then have jk: "k + 1 < j" using False by simp
          have jd: "j < depth (s st)" using j f1(5) by simp
          have "stack_item (s st) j < stack_item (s st) (k + 1)"
            using stack_strict[OF inv jk jd] .
          then show ?thesis
            using lst_invD(11)[OF inv, of "k + 1" "stack_item (s st) j"]
              pivot_in_range[OF inv j(1) jd] dk
            by (simp add: pivot_item_def)
        qed
        then have "c0 (pivot_item st j) x \<le> 0"
          using cmp_ok_trans[OF c, of "pivot_item st j" "pivot_item st (k + 1)" x]
            here(2) cmp_ok_flip[OF c, of x "pivot_item st (k + 1)"] cm by simp
        then have "0 \<le> c0 x (pivot_item st j)"
          using cmp_ok_flip[OF c, of x "pivot_item st j"] by simp
        then show ?thesis using False f1(2,6) by simp
      qed
      have "inserted st1 x (lst_flatten (bucket_add st1 k x) (depth (s st1)))"
        by (rule inserted_bucket_add[OF f1(1,3) k1 _ _ f1(4)]) (use ox lst_invD(2)[OF f1(1)] in auto)
      then have "inserted st1 x (bucket_add st1 k x)" by (simp add: lst_flatten_depth)
      then show ?thesis using ins here inserted_rand[of st x] by (simp add: st1_def)
    next
      case flat
      have k1: "k + 1 < depth (s st1)" using dk f1(5) by simp
      have ox: "(j \<le> k + 1 \<longrightarrow> cmp st1 x (pivot_item st1 j) \<le> 0) \<and>
                (k + 1 < j \<longrightarrow> 0 \<le> cmp st1 x (pivot_item st1 j))"
        if j: "1 \<le> j" "j < k + 1" for j
        using lo[of j] j f1(2,6) cm by simp
      have "inserted st1 x (lst_flatten (bucket_add st1 (k + 1) x) (k + 1))"
        by (rule inserted_bucket_add[OF f1(1,3) k1 _ _ f1(4)]) (use ox k1 in auto)
      then show ?thesis using ins flat inserted_rand[of st x]
        by (simp add: st1_def bucket_add_flatten)
    qed
  qed
qed

lemma lst_insert_total:
  assumes inv: "lst_inv st" and c: "cmp_ok (cmp st)" and mem: "mem_ok st"
    and fresh: "x \<notin> resident st" and h: "hnd st x \<le> 0"
    and room: "num_elements st < 2 ^ 30"
  shows "\<exists>st'. lst_insert st x = Some (1, st') \<and> inserted st x st'"
proof -
  define st1 where "st1 = (if num_elements st = capacity st then snd (lst_expand st) else st)"
  have cap: "capacity st < 2 ^ 30" if "num_elements st = capacity st"
    using that room by simp
  have g: "(if num_elements st = capacity st then lst_expand st else (True, st)) = (True, st1)"
    using lst_expand_full[OF inv _ mem cap] by (auto simp: st1_def prod_eq_iff)
  have f: "lst_inv st1" "resident st1 = resident st" "num_elements st1 = num_elements st"
    "idx st1 = idx st" "cmp st1 = cmp st" "mem_ok st1 = mem_ok st"
    "\<And>y. y \<notin> resident st \<Longrightarrow> hnd st1 y = hnd st y"
    "num_elements st1 < capacity st1"
    using lst_expand_full[OF inv _ mem cap] inv lst_invD(6)[OF inv] lst_inv_cap_pos[OF inv]
    by (auto simp: st1_def)
  have hx: "hnd st1 x \<le> 0" using f(7)[OF fresh] h by simp
  have nz: "\<not> (num_elements st1 > 0 \<and> idx st1 = 0 \<and> item st1 0 = x)"
  proof
    assume a: "num_elements st1 > 0 \<and> idx st1 = 0 \<and> item st1 0 = x"
    then have "0 \<in> {idx st1..<idx st1 + num_elements st1}" by simp
    then have "item st1 0 \<in> resident st1" unfolding resident_def by (rule imageI)
    then show False using a fresh f(2) by simp
  qed
  have "0 < depth (s st1)" using lst_invD(2)[OF f(1)] by simp
  from u_lst_insert_total[OF c f(1) f(5) f(8) _ this] fresh f(2) obtain st' where
    a: "u_lst_insert st1 0 x = Some st'" "inserted st1 x st'"
    by auto
  have "inserted st x st'" using a(2) f unfolding inserted_def by auto
  moreover have "lst_insert st x = Some (1, st')"
    unfolding lst_insert_def g using hx nz a(1) by (auto simp: Let_def item_index_def)
  ultimately show ?thesis by blast
qed

section \<open>Sequences of insertions and of pops\<close>

lemma u_lst_alloc_inv:
  assumes "u_lst_alloc c off h r ok = Some st"
  shows "lst_inv st" "num_elements st = 0" "idx st = 0" "cmp st = c" "hnd st = h" "mem_ok st"
    "resident st = {}"
proof -
  have ok: "ok" using assms by (auto simp: u_lst_alloc_def split: if_splits)
  have e: "st = \<lparr>capacity = INITIAL_CAPACITY, idx = 0, num_elements = 0, offset = off,
                 p = (\<lambda>_. NULL), s = snd (stack_push ok stack_alloc 0), cmp = c,
                 hnd = h, rnd = r, mem_ok = ok\<rparr>"
    using assms ok by (simp add: u_lst_alloc_def)
  have sp: "snd (stack_push ok stack_alloc 0) =
      \<lparr>depth = 1, size_s = INITIAL_STACK_CAPACITY, data = (\<lambda>_. 0)\<rparr>"
    by (simp add: stack_push_def stack_alloc_def INITIAL_STACK_CAPACITY_def fun_eq_iff)
  show "num_elements st = 0" "idx st = 0" "cmp st = c" "hnd st = h" "mem_ok st"
    using ok by (simp_all add: e)
  show "resident st = {}" by (simp add: e resident_def)
  show "lst_inv st"
    unfolding lst_inv_def
    by (simp add: e sp INITIAL_CAPACITY_def is_pow2_2048 stack_item_def)
qed

lemma insert_all_total:
  "lst_inv st \<Longrightarrow> cmp_ok (cmp st) \<Longrightarrow> mem_ok st \<Longrightarrow> distinct xs \<Longrightarrow>
   set xs \<inter> resident st = {} \<Longrightarrow> (\<And>x. x \<in> set xs \<Longrightarrow> hnd st x \<le> 0) \<Longrightarrow>
   num_elements st + int (length xs) < 2 ^ 30 \<Longrightarrow>
   \<exists>st'. insert_all st xs = Some st' \<and> lst_inv st' \<and> resident st' = resident st \<union> set xs \<and>
     num_elements st' = num_elements st + int (length xs) \<and> cmp st' = cmp st \<and> mem_ok st'"
proof (induction xs arbitrary: st)
  case Nil
  then show ?case by simp
next
  case (Cons x xs)
  have fresh: "x \<notin> resident st" using Cons.prems(5) by simp
  have room: "num_elements st < 2 ^ 30"
    using Cons.prems(7) by simp
  from lst_insert_total[OF Cons.prems(1,2,3) fresh _ room] Cons.prems(6)[of x] obtain st1 where
    a: "lst_insert st x = Some (1, st1)" "inserted st x st1"
    by auto
  have i: "lst_inv st1" "resident st1 = insert x (resident st)"
    "num_elements st1 = num_elements st + 1" "cmp st1 = cmp st" "mem_ok st1 = mem_ok st"
    "\<And>y. y \<notin> resident st \<Longrightarrow> y \<noteq> x \<Longrightarrow> hnd st1 y = hnd st y"
    using a(2) unfolding inserted_def by simp_all
  have h1: "hnd st1 y \<le> 0" if "y \<in> set xs" for y
  proof -
    have "y \<notin> resident st" "y \<noteq> x" using that Cons.prems(4,5) by auto
    then show ?thesis using i(6)[of y] Cons.prems(6)[of y] that by simp
  qed
  have "\<exists>st'. insert_all st1 xs = Some st' \<and> lst_inv st' \<and>
          resident st' = resident st1 \<union> set xs \<and>
          num_elements st' = num_elements st1 + int (length xs) \<and> cmp st' = cmp st1 \<and> mem_ok st'"
    by (rule Cons.IH) (use i Cons.prems h1 in auto)
  then obtain st' where
    b: "insert_all st1 xs = Some st'" "lst_inv st'" "resident st' = resident st1 \<union> set xs"
      "num_elements st' = num_elements st1 + int (length xs)" "cmp st' = cmp st1" "mem_ok st'"
    by blast
  show ?case using a(1) b i by (intro exI[of _ st']) auto
qed

text \<open>From a state with \<open>idx = 0\<close>, a list of insertions that all succeed has no repetition.\<close>

lemma resident_rejected:
  assumes inv: "lst_inv st" and ix: "idx st = 0" and x: "x \<in> resident st"
    and room: "num_elements st < 2 ^ 30"
  shows "\<exists>st'. lst_insert st x = Some (- 1, st')"
proof -
  note d = lst_invD[OF inv]
  from x obtain i where i: "0 \<le> i" "i < num_elements st" "x = item st i"
    by (auto simp: resident_def ix)
  have "hnd st x = i" using d(10)[of i] i d(6) ix by (simp add: lst_inv_reduce[OF inv])
  then have "0 < item_index st x \<or>
      (item_index st x = 0 \<and> 0 < num_elements st \<and> idx st = 0 \<and> item st 0 = x)"
    using i ix by (cases "i = 0") (auto simp: item_index_def)
  moreover have "capacity st \<le> INT_MAX" if "num_elements st = capacity st"
    using that room by (simp add: INT_MAX_def)
  ultimately show ?thesis by (rule lst_insert_reject[OF inv, rotated])
qed

lemma insert_all_distinct:
  "lst_inv st \<Longrightarrow> cmp_ok (cmp st) \<Longrightarrow> mem_ok st \<Longrightarrow> idx st = 0 \<Longrightarrow>
   (\<And>x. x \<in> set xs \<Longrightarrow> x \<notin> resident st \<Longrightarrow> hnd st x \<le> 0) \<Longrightarrow>
   insert_all st xs = Some st' \<Longrightarrow> num_elements st + int (length xs) < 2 ^ 30 \<Longrightarrow>
   distinct xs \<and> set xs \<inter> resident st = {}"
proof (induction xs arbitrary: st)
  case Nil
  then show ?case by simp
next
  case (Cons x xs)
  from Cons.prems(6) obtain st1 where
    a: "lst_insert st x = Some (1, st1)" "insert_all st1 xs = Some st'"
    by (auto split: option.splits if_splits)
  have room: "num_elements st < 2 ^ 30"
    using Cons.prems(7) by simp
  have fresh: "x \<notin> resident st"
    using resident_rejected[OF Cons.prems(1,4) _ room, of x] a(1) by auto
  from lst_insert_total[OF Cons.prems(1,2,3) fresh _ room] Cons.prems(5)[of x] fresh a(1)
  have ins: "inserted st x st1" by auto
  have i: "lst_inv st1" "resident st1 = insert x (resident st)"
    "cmp st1 = cmp st" "mem_ok st1 = mem_ok st" "idx st1 = idx st"
    "\<And>y. y \<notin> resident st \<Longrightarrow> y \<noteq> x \<Longrightarrow> hnd st1 y = hnd st y"
    "num_elements st1 = num_elements st + 1"
    using ins unfolding inserted_def by simp_all
  have h1: "hnd st1 y \<le> 0" if "y \<in> set xs" "y \<notin> resident st1" for y
    using that i(2) i(6)[of y] Cons.prems(5)[of y] by simp
  have "distinct xs \<and> set xs \<inter> resident st1 = {}"
    by (rule Cons.IH[OF _ _ _ _ _ a(2)]) (use i Cons.prems h1 in auto)
  then show ?case using fresh i(2) by auto
qed

lemma pop_n_total:
  "lst_inv st \<Longrightarrow> cmp_ok (cmp st) \<Longrightarrow> mem_ok st \<Longrightarrow> num_elements st = int n \<Longrightarrow>
   \<exists>outs st'. pop_n st n = Some (map Some outs, st') \<and> set outs = resident st \<and>
     distinct outs \<and> length outs = n \<and> sorted_wrt (\<lambda>a b. cmp st a b \<le> 0) outs \<and>
     lst_inv st' \<and> num_elements st' = 0"
proof (induction n arbitrary: st)
  case 0
  then have "resident st = {}" by (simp add: resident_def)
  then show ?case using 0 by (intro exI[of _ "[]"] exI[of _ st]) simp
next
  case (Suc n)
  have ne: "num_elements st \<noteq> 0" using Suc.prems(4) by simp
  from lst_pop_total[OF Suc.prems(1,2,3) ne] obtain m st1 where
    a: "lst_pop st = Some (Some m, st1)" "lst_inv st1" "m \<in> resident st"
      "resident st1 = resident st - {m}" "num_elements st1 = num_elements st - 1"
      "cmp st1 = cmp st" "mem_ok st1 = mem_ok st" "\<forall>y \<in> resident st. cmp st m y \<le> 0"
    by blast
  have "\<exists>outs st'. pop_n st1 n = Some (map Some outs, st') \<and> set outs = resident st1 \<and>
     distinct outs \<and> length outs = n \<and> sorted_wrt (\<lambda>a b. cmp st1 a b \<le> 0) outs \<and>
     lst_inv st' \<and> num_elements st' = 0"
    by (rule Suc.IH) (use a Suc.prems in auto)
  then obtain outs st' where
    b: "pop_n st1 n = Some (map Some outs, st')" "set outs = resident st1" "distinct outs"
      "length outs = n" "sorted_wrt (\<lambda>a b. cmp st1 a b \<le> 0) outs" "lst_inv st'"
      "num_elements st' = 0"
    by blast
  show ?case
    using a b by (intro exI[of _ "m # outs"] exI[of _ st']) auto
qed

section \<open>Claim C1: insertions, then pops\<close>

text \<open>
  C1. Take a comparator that is a total preorder, fewer than \<open>2 ^ 30\<close> records whose handle
  fields are 0, any sequence of draws, and an LST just allocated. The insertions of the
  records \<open>rs\<close>, in this order, all return success exactly when no record occurs twice in
  \<open>rs\<close>. After them, as many calls of \<open>lst_pop\<close> as there are records return, and they
  return exactly the records of \<open>rs\<close>, each once, in nondecreasing order of the comparator.
  The bound keeps every capacity that \<open>lst_expand\<close> has to double below \<open>2 ^ 30\<close>, where
  the doubling is still an \<open>int\<close>.
\<close>

theorem insert_pop_sorted:
  assumes "cmp_ok c" and "\<forall>x \<in> set rs. h x = 0" and "length rs < 2 ^ 30"
  shows "\<exists>st0. u_lst_alloc c off h r True = Some st0 \<and>
           ((\<exists>st1. insert_all st0 rs = Some st1) \<longleftrightarrow> distinct rs) \<and>
           (\<forall>st1. insert_all st0 rs = Some st1 \<longrightarrow>
              (\<exists>outs st2. pop_n st1 (length rs) = Some (map Some outs, st2) \<and>
                 mset outs = mset rs \<and> distinct outs \<and> length outs = length rs \<and>
                 sorted_wrt (\<lambda>a b. c a b \<le> 0) outs))"
proof -
  obtain st0 where al: "u_lst_alloc c off h r True = Some st0"
    by (simp add: u_lst_alloc_def)
  note i0 = u_lst_alloc_inv[OF al]
  have c0: "cmp_ok (cmp st0)" using assms(1) i0(4) by simp
  have h0: "hnd st0 x \<le> 0" if "x \<in> set rs" for x using assms(2) that i0(5) by simp
  have n0: "num_elements st0 + int (length rs) < 2 ^ 30" using assms(3) i0(2) by simp
  have tot: "\<exists>st1. insert_all st0 rs = Some st1 \<and> lst_inv st1 \<and>
      resident st1 = resident st0 \<union> set rs \<and>
      num_elements st1 = num_elements st0 + int (length rs) \<and> cmp st1 = cmp st0 \<and> mem_ok st1"
    if "distinct rs"
    by (rule insert_all_total[OF i0(1) c0 i0(6) that _ _ n0]) (use i0(7) h0 in auto)
  have dis: "distinct rs" if "insert_all st0 rs = Some st1" for st1
    using insert_all_distinct[OF i0(1) c0 i0(6) i0(3) _ that n0] h0 by blast
  have pops: "\<exists>outs st2. pop_n st1 (length rs) = Some (map Some outs, st2) \<and>
                 mset outs = mset rs \<and> distinct outs \<and> length outs = length rs \<and>
                 sorted_wrt (\<lambda>a b. c a b \<le> 0) outs"
    if "insert_all st0 rs = Some st1" for st1
  proof -
    from tot[OF dis[OF that]] that have
      a: "lst_inv st1" "resident st1 = set rs" "num_elements st1 = int (length rs)"
        "cmp st1 = c" "mem_ok st1"
      using i0 by auto
    have "cmp_ok (cmp st1)" using assms(1) a(4) by simp
    from pop_n_total[OF a(1) this a(5) a(3)] obtain outs st2 where
      o: "pop_n st1 (length rs) = Some (map Some outs, st2)" "set outs = resident st1"
        "distinct outs" "length outs = length rs" "sorted_wrt (\<lambda>a b. cmp st1 a b \<le> 0) outs"
      by blast
    have "mset outs = mset rs"
      using o(2,3) a(2) dis[OF that] by (simp add: set_eq_iff_mset_eq_distinct[symmetric])
    then show ?thesis using o a(4) by auto
  qed
  show ?thesis using al tot dis pops by (intro exI[of _ st0]) blast
qed

theorem insert_pop_sorted_witness:
  "cmp_ok ex_cmp \<and> u_lst_alloc ex_cmp 0 (\<lambda>_. 0) (\<lambda>_. 0) True = Some ex_init \<and>
   length [5, 3, 7 :: ptr] < 2 ^ 30 \<and>
   distinct [5, 3, 7 :: ptr] \<and> insert_all ex_init [5, 3, 7] = Some ex3 \<and>
   map_option fst (pop_n ex3 3) = Some [Some 3, Some 5, Some 7] \<and>
   sorted_wrt (\<lambda>a b. ex_cmp a b \<le> 0) [3, 5, 7]"
proof -
  have al: "u_lst_alloc ex_cmp 0 (\<lambda>_. 0) (\<lambda>_. 0) True = Some ex_init"
    by (simp add: ex_init_def u_lst_alloc_def)
  have hz: "\<forall>x \<in> set [5, 3, 7 :: ptr]. (\<lambda>_. 0 :: int) x = 0" by simp
  have ds: "distinct [5, 3, 7 :: ptr]" by simp
  have ln: "length [5, 3, 7 :: ptr] < 2 ^ 30" by simp
  have pe: "map_option fst (pop_n ex3 3) = Some [Some 3, Some 5, Some 7]" by code_simp
  from insert_pop_sorted[OF cmp_ok_ex hz ln, of 0 "\<lambda>_. 0"] al ds
  have i: "\<exists>st1. insert_all ex_init [5, 3, 7] = Some st1"
    and p: "\<forall>st1. insert_all ex_init [5, 3, 7] = Some st1 \<longrightarrow>
              (\<exists>outs st2. pop_n st1 (length [5, 3, 7 :: ptr]) = Some (map Some outs, st2) \<and>
                 mset outs = mset [5, 3, 7] \<and> distinct outs \<and> length outs = length [5, 3, 7 :: ptr] \<and>
                 sorted_wrt (\<lambda>a b. ex_cmp a b \<le> 0) outs)"
    by auto
  from i have e3: "insert_all ex_init [5, 3, 7] = Some ex3" by (auto simp: ex3_def)
  have l3: "length [5, 3, 7 :: ptr] = 3" by simp
  from p[rule_format, OF e3] obtain outs st2 where
    o: "pop_n ex3 3 = Some (map Some outs, st2)" "sorted_wrt (\<lambda>a b. ex_cmp a b \<le> 0) outs"
    unfolding l3 by blast
  from o(1) pe have "map Some outs = [Some 3, Some 5, Some 7]" by simp
  then have "outs = [3, 5, 7]" by (auto simp: map_eq_Cons_conv)
  then show ?thesis using cmp_ok_ex al ds e3 pe o(2) by simp
qed

section \<open>Claim C4: insertion of a record by the sign of its handle field\<close>

lemma resident_handle_nonneg:
  assumes inv: "lst_inv st" and x: "x \<in> resident st"
  shows "0 \<le> hnd st x"
proof -
  from x obtain i where i: "idx st \<le> i" "i < idx st + num_elements st" "x = item st i"
    by (auto simp: resident_def)
  have "hnd st x = i mod capacity st"
    using lst_invD(10)[OF inv i(1,2)] i(3) by (simp add: lst_inv_reduce[OF inv])
  then show ?thesis using lst_inv_cap_pos[OF inv] by simp
qed

text \<open>
  C4 (as amended). In a state that satisfies the invariants, whose capacity is a value of
  the type \<open>int\<close>, \<open>lst_insert\<close> returns failure for every record whose handle field is
  positive. A record whose handle field is negative is not refused for it: with a
  comparator that is a total preorder and an allocator that has memory, and unless the
  LST holds \<open>2 ^ 30\<close> records, \<open>lst_insert\<close> returns success and the record is resident.
\<close>

theorem insert_by_handle:
  assumes "lst_inv st" and "capacity st \<le> INT_MAX"
  shows "(0 < item_index st d \<longrightarrow> (\<exists>st'. lst_insert st d = Some (- 1, st'))) \<and>
         (item_index st d < 0 \<and> cmp_ok (cmp st) \<and> mem_ok st \<and> num_elements st < 2 ^ 30 \<longrightarrow>
            (\<exists>st'. lst_insert st d = Some (1, st') \<and> lst_inv st' \<and>
               resident st' = insert d (resident st) \<and>
               num_elements st' = num_elements st + 1))"
proof (intro conjI impI)
  assume "0 < item_index st d"
  then show "\<exists>st'. lst_insert st d = Some (- 1, st')"
    using lst_insert_reject[OF assms(1,2)] by blast
next
  assume a: "item_index st d < 0 \<and> cmp_ok (cmp st) \<and> mem_ok st \<and> num_elements st < 2 ^ 30"
  then have h: "hnd st d < 0" by (simp add: item_index_def)
  then have fresh: "d \<notin> resident st" using resident_handle_nonneg[OF assms(1), of d] by auto
  have "hnd st d \<le> 0" using h by simp
  from lst_insert_total[OF assms(1) _ _ fresh this] a obtain st' where
    "lst_insert st d = Some (1, st')" "inserted st d st'"
    by blast
  then show "\<exists>st'. lst_insert st d = Some (1, st') \<and> lst_inv st' \<and>
               resident st' = insert d (resident st) \<and>
               num_elements st' = num_elements st + 1"
    by (auto simp: inserted_def)
qed

lemma ex_popped_inv:
  "lst_inv ex_popped" "cmp_ok (cmp ex_popped)" "mem_ok ex_popped"
proof -
  have al: "u_lst_alloc ex_cmp 0 (\<lambda>_. 0) (\<lambda>_. 0) True = Some ex_init"
    by (simp add: ex_init_def u_lst_alloc_def)
  note i0 = u_lst_alloc_inv[OF al]
  have "\<exists>st1. insert_all ex_init [5] = Some st1 \<and> lst_inv st1 \<and>
      resident st1 = resident ex_init \<union> set [5] \<and>
      num_elements st1 = num_elements ex_init + int (length [5 :: ptr]) \<and>
      cmp st1 = cmp ex_init \<and> mem_ok st1"
  proof (rule insert_all_total[OF i0(1) _ i0(6)])
    show "num_elements ex_init + int (length [5 :: ptr]) < 2 ^ 30" using i0(2) by simp
    show "cmp_ok (cmp ex_init)" using cmp_ok_ex i0(4) by simp
    show "distinct [5 :: ptr]" by simp
    show "set [5] \<inter> resident ex_init = {}" using i0(7) by simp
    show "hnd ex_init x \<le> 0" for x using i0(5) by simp
  qed
  then obtain st1 where s1: "insert_all ex_init [5] = Some st1" "lst_inv st1"
    "num_elements st1 = 1" "cmp st1 = ex_cmp" "mem_ok st1"
    using i0 by auto
  have c1: "cmp_ok (cmp st1)" "num_elements st1 \<noteq> 0" using cmp_ok_ex s1(3,4) by simp_all
  from lst_pop_total[OF s1(2) c1(1) s1(5) c1(2)] s1(4,5) obtain m2 st2 where
    s2: "lst_pop st1 = Some (Some m2, st2)" "lst_inv st2" "cmp st2 = ex_cmp" "mem_ok st2"
    by auto
  have e: "ex_popped = st2" using s1(1) s2(1) by (simp add: ex_popped_def)
  show "lst_inv ex_popped" "cmp_ok (cmp ex_popped)" "mem_ok ex_popped"
    using s2 cmp_ok_ex by (simp_all add: e)
qed

theorem insert_by_handle_witness:
  "lst_inv ex3 \<and> capacity ex3 \<le> INT_MAX \<and> item_index ex3 3 = 1 \<and>
   map_option fst (lst_insert ex3 3) = Some (- 1) \<and>
   lst_inv ex_popped \<and> capacity ex_popped \<le> INT_MAX \<and> item_index ex_popped 5 = - 1 \<and>
   cmp_ok (cmp ex_popped) \<and> mem_ok ex_popped \<and> num_elements ex_popped = 0 \<and>
   map_option fst (lst_insert ex_popped 5) = Some 1 \<and>
   resident (snd (the (lst_insert ex_popped 5))) = {5}"
proof -
  have a: "item_index ex3 3 = 1" by (simp add: item_index_def ex3_fields)
  have b: "capacity ex3 \<le> INT_MAX" by (simp add: ex3_fields INT_MAX_def)
  from insert_by_handle[OF ex3_inv b, of 3] a
  have r3: "map_option fst (lst_insert ex3 3) = Some (- 1)" by auto
  have f: "capacity ex_popped = 2048" "item_index ex_popped 5 = - 1" "num_elements ex_popped = 0"
    by code_simp+
  have bp: "capacity ex_popped \<le> INT_MAX" by (simp add: f INT_MAX_def)
  have rp: "resident ex_popped = {}" by (simp add: resident_def f)
  from insert_by_handle[OF ex_popped_inv(1) bp, of 5] f ex_popped_inv(2,3) rp
  obtain st' where "lst_insert ex_popped 5 = Some (1, st')" "resident st' = {5}"
    by auto
  then have r5: "map_option fst (lst_insert ex_popped 5) = Some 1"
    "resident (snd (the (lst_insert ex_popped 5))) = {5}"
    by simp_all
  show ?thesis using ex3_inv a b r3 ex_popped_inv bp f r5 by simp
qed

text \<open>
  The claim as stated fails for a negative handle field: a record that was inserted and
  popped has the handle field -1, and its insertion succeeds.
\<close>

theorem insert_accepts_negative_handle:
  "item_index ex_popped 5 = - 1 \<and> map_option fst (lst_insert ex_popped 5) = Some 1"
  by (intro conjI; code_simp)

text \<open>
  A record whose handle field is 0 and that is in slot 0 is refused when \<open>idx = 0\<close>
  (\<open>lst_insert_reject\<close>). When the records in use wrap around the end of the array,
  slot 0 is in use while \<open>idx\<close> is not 0: in \<open>ex_last\<close> the record 2 is inserted into
  slot 0, and a second insertion of it is accepted and stores it again in slot 1, although
  \<open>lst_insert\<close> means to refuse whatever looks like it is already in an LST.
\<close>

lemma ex_last_inv: "lst_inv ex_last"
proof -
  have r: "{2047..<2048 :: int} = {2047}" by auto
  show ?thesis
    unfolding lst_inv_def
    by (simp add: ex_last_def is_pow2_2048 stack_item_def item_index_def item_def
        index_reduce_def r)
qed

lemma insert_slot0_twice:
  "map_option fst (lst_insert ex_last 2) = Some 1 \<and>
   item (snd (the (lst_insert ex_last 2))) 0 = 2 \<and>
   item_index (snd (the (lst_insert ex_last 2))) 2 = 0 \<and>
   map_option fst (lst_insert (snd (the (lst_insert ex_last 2))) 2) = Some 1 \<and>
   item (snd (the (lst_insert (snd (the (lst_insert ex_last 2))) 2))) 0 = 2 \<and>
   item (snd (the (lst_insert (snd (the (lst_insert ex_last 2))) 2))) 1 = 2 \<and>
   num_elements (snd (the (lst_insert (snd (the (lst_insert ex_last 2))) 2))) = 3"
  by (intro conjI; code_simp)

section \<open>lst\_extract: the status and the count\<close>

lemma bucket_delete_count [simp]:
  "num_elements (bucket_delete st K x) = num_elements st - 1"
  "hnd (bucket_delete st K x) x = - 1"
  by (simp_all add: bucket_delete_def Let_def)




section \<open>bucket\_delete\<close>









section \<open>bucket\_delete of a resident record\<close>


lemma lst_flatten_resident [simp]: "resident (lst_flatten st D) = resident st"
  by (simp add: resident_def lst_flatten_eq)







section \<open>lst\_extract of a resident record\<close>



section \<open>Claim C6: lst\_extract\<close>




subsection \<open>Records that compare equal\<close>

text \<open>
  \<open>_lst_extract\<close> takes a record that compares equal to a pivot for that pivot, as the
  comparator is required to be a total order on the resident records. With a comparator
  that is only a preorder the hypothesis on the records that compare equal to \<open>x\<close> is
  needed. In \<open>ex_eq\<close> the record 2 compares equal to the pivot, which is the record 1 at
  \<open>idx\<close>; \<open>_lst_extract\<close> flattens and calls \<open>bucket_delete\<close> as if the record 2 were
  that pivot, and \<open>bucket_delete\<close> reads the slot before \<open>idx\<close>: the record 1 is lost and
  the record 4, popped before, is resident again.
\<close>

lemma extract_equal_keys:
  "cmp_ok (cmp ex_eq) \<and> lst_inv ex_eq \<and> resident ex_eq = {1, 2} \<and>
   map_option fst (lst_extract ex_eq 2) = Some 1 \<and>
   resident (snd (the (lst_extract ex_eq 2))) = {4}"
proof -
  define c0 :: "ptr \<Rightarrow> ptr \<Rightarrow> int" where "c0 = (\<lambda>a b. 0)"
  have c: "cmp_ok c0" by (simp add: cmp_ok_def c0_def)
  obtain st0 where al: "u_lst_alloc c0 0 (\<lambda>_. 0) (\<lambda>_. 0) True = Some st0"
    by (simp add: u_lst_alloc_def)
  note i0 = u_lst_alloc_inv[OF al]
  have "\<exists>st1. insert_all st0 [1, 2, 3, 4] = Some st1 \<and> lst_inv st1 \<and>
      resident st1 = resident st0 \<union> set [1, 2, 3, 4] \<and>
      num_elements st1 = num_elements st0 + int (length [1, 2, 3, 4 :: ptr]) \<and>
      cmp st1 = cmp st0 \<and> mem_ok st1"
  proof (rule insert_all_total[OF i0(1) _ i0(6)])
    show "num_elements st0 + int (length [1, 2, 3, 4 :: ptr]) < 2 ^ 30" using i0(2) by simp
    show "cmp_ok (cmp st0)" using c i0(4) by simp
    show "distinct [1, 2, 3, 4 :: ptr]" by simp
    show "set [1, 2, 3, 4] \<inter> resident st0 = {}" using i0(7) by simp
    show "hnd st0 x \<le> 0" for x using i0(5) by simp
  qed
  then obtain st1 where s1: "insert_all st0 [1, 2, 3, 4] = Some st1" "lst_inv st1"
    "num_elements st1 = 4" "cmp st1 = c0" "mem_ok st1"
    using i0 by auto
  have c1: "cmp_ok (cmp st1)" "num_elements st1 \<noteq> 0" using c s1(3,4) by simp_all
  from lst_pop_total[OF s1(2) c1(1) s1(5) c1(2)] s1(3,4,5) obtain m2 st2 where
    s2: "lst_pop st1 = Some (Some m2, st2)" "lst_inv st2" "num_elements st2 = 3"
      "cmp st2 = c0" "mem_ok st2"
    by auto
  have c2: "cmp_ok (cmp st2)" "num_elements st2 \<noteq> 0" using c s2(3,4) by simp_all
  from lst_pop_total[OF s2(2) c2(1) s2(5) c2(2)] s2(4) obtain m3 st3 where
    s3: "lst_pop st2 = Some (Some m3, st3)" "lst_inv st3" "cmp st3 = c0"
    by auto
  have e: "ex_eq = st3" using al s1(1) s2(1) s3(1) by (simp add: ex_eq_def c0_def)
  have b: "idx ex_eq = 2" "num_elements ex_eq = 2" "item ex_eq 2 = 1" "item ex_eq 3 = 2"
    "map_option fst (lst_extract ex_eq 2) = Some 1"
    "idx (snd (the (lst_extract ex_eq 2))) = 2"
    "num_elements (snd (the (lst_extract ex_eq 2))) = 1"
    "item (snd (the (lst_extract ex_eq 2))) 2 = 4"
    by code_simp+
  have r: "{2..<4::int} = {2, 3}" "{2..<3::int} = {2}" by auto
  have "resident ex_eq = {1, 2}" by (simp add: resident_def b r)
  moreover have "resident (snd (the (lst_extract ex_eq 2))) = {4}"
    by (simp add: resident_def b r)
  ultimately show ?thesis using c s3(2,3) b(5) by (simp add: e)
qed

end
